theory Spec2Isabelle
  imports Main "HOL-Library.Word" "HOL-Library.Signed_Division"
begin

unbundle bit_operations_syntax

section \<open>Machine types of the transmitter sources\<close>

type_synonym uint8 = "8 word"
type_synonym uint16 = "16 word"

section \<open>modulation.c: CRC-8\<close>

text \<open>
  \<^verbatim>\<open>#define CRC8_POLYNOMIAL 0x07\<close>
\<close>

definition CRC8_POLYNOMIAL :: uint8 where
  "CRC8_POLYNOMIAL = 0x07"

text \<open>
  The body of the inner loop of \<^verbatim>\<open>calculate_crc8\<close>:
  \<^verbatim>\<open>if (crc & 0x80) crc = (crc << 1) ^ CRC8_POLYNOMIAL; else crc <<= 1;\<close>
  The shift is computed in \<^verbatim>\<open>int\<close> and stored back into a \<^verbatim>\<open>uint8_t\<close>, which
  keeps the low eight bits: \<open>push_bit\<close> on an 8-bit word.
\<close>

definition crc8_shift :: "uint8 \<Rightarrow> uint8" where
  "crc8_shift crc =
     (if crc AND 0x80 \<noteq> 0 then push_bit 1 crc XOR CRC8_POLYNOMIAL else push_bit 1 crc)"

text \<open>
  The inner loop \<^verbatim>\<open>for (int j = 0; j < 8; j++)\<close>, started at \<open>j\<close>.
\<close>

function crc8_inner :: "int \<Rightarrow> uint8 \<Rightarrow> uint8" where
  "crc8_inner j crc = (if j < 8 then crc8_inner (j + 1) (crc8_shift crc) else crc)"
  by pat_completeness auto
termination
  by (relation "measure (\<lambda>(j, crc). nat (8 - j))") auto

declare crc8_inner.simps [simp del]

text \<open>
  The outer loop \<^verbatim>\<open>for (size_t i = 0; i < length; i++)\<close> over the buffer
  \<^verbatim>\<open>data[0 .. length-1]\<close>, which the model holds as a list of bytes: the recursion
  takes the bytes in index order with the running \<^verbatim>\<open>crc\<close>.
\<close>

fun crc8_outer :: "uint8 list \<Rightarrow> uint8 \<Rightarrow> uint8" where
  "crc8_outer [] crc = crc"
| "crc8_outer (b # bs) crc = crc8_outer bs (crc8_inner 0 (crc XOR b))"

definition calculate_crc8 :: "uint8 list \<Rightarrow> uint8" where
  "calculate_crc8 data = crc8_outer data 0x00"

text \<open>
  \<^verbatim>\<open>int verify_crc8(data, length, expected_crc)\<close>: 1 when the recomputed CRC equals
  the expected one, else 0.
\<close>

definition verify_crc8 :: "uint8 list \<Rightarrow> uint8 \<Rightarrow> int" where
  "verify_crc8 data expected_crc =
     (let calculated_crc = calculate_crc8 data
      in if calculated_crc = expected_crc then 1 else 0)"

subsection \<open>The CRC-8 of the specification\<close>

text \<open>
  The reference the specification describes, written from its words and not from the
  code: polynomial 0x07, initial value 0x00, most significant bit first; for each input
  byte the byte is XORed into the accumulator and eight shift/XOR steps follow, each
  step shifting left by one and XORing the polynomial in when the bit shifted out was
  set.
\<close>

definition crc8_reference_step :: "uint8 \<Rightarrow> uint8" where
  "crc8_reference_step acc =
     (if bit acc 7 then push_bit 1 acc XOR 0x07 else push_bit 1 acc)"

definition crc8_reference :: "uint8 list \<Rightarrow> uint8" where
  "crc8_reference data =
     foldl (\<lambda>acc byte. (crc8_reference_step ^^ 8) (acc XOR byte)) 0x00 data"

text \<open>
  The same CRC as a division that takes one message bit per step: the message is the
  bytes' bits, each byte most significant bit first; the register starts at 0x00; a
  step shifts the register left by one, and subtracts (XORs) the polynomial 0x07
  when the bit shifted out differs from the incoming message bit.
\<close>

definition message_bits :: "uint8 list \<Rightarrow> bool list" where
  "message_bits data = concat (map (\<lambda>byte. map (bit byte) [7, 6, 5, 4, 3, 2, 1, 0]) data)"

definition crc8_bit_step :: "uint8 \<Rightarrow> bool \<Rightarrow> uint8" where
  "crc8_bit_step acc b =
     (if bit acc 7 \<noteq> b then push_bit 1 acc XOR 0x07 else push_bit 1 acc)"

definition crc8_bit_serial :: "uint8 list \<Rightarrow> uint8" where
  "crc8_bit_serial data = foldl crc8_bit_step 0x00 (message_bits data)"

section \<open>modulation.c: Hamming(7,4)\<close>

text \<open>
  \<^verbatim>\<open>uint8_t hamming74_encode(uint8_t data)\<close>. All intermediate values are single
  bits placed below bit 7, so the \<^verbatim>\<open>int\<close> arithmetic of C and the 8-bit words of
  the model agree.
\<close>

definition hamming74_encode :: "uint8 \<Rightarrow> uint8" where
  "hamming74_encode data =
     (let d1 = drop_bit 0 data AND 1;
          d2 = drop_bit 1 data AND 1;
          d3 = drop_bit 2 data AND 1;
          d4 = drop_bit 3 data AND 1;
          p1 = d1 XOR d2 XOR d4;
          p2 = d1 XOR d3 XOR d4;
          p3 = d2 XOR d3 XOR d4;
          encoded = push_bit 0 p1 OR push_bit 1 p2 OR push_bit 2 d1 OR
                    push_bit 3 p3 OR push_bit 4 d2 OR push_bit 5 d3 OR push_bit 6 d4
      in encoded)"

text \<open>
  \<^verbatim>\<open>uint8_t hamming74_decode(uint8_t encoded)\<close>. The correction
  \<^verbatim>\<open>encoded ^= (1 << (syndrome - 1))\<close> runs only for a syndrome in 1..7.
\<close>

definition hamming74_decode :: "uint8 \<Rightarrow> uint8" where
  "hamming74_decode encoded =
     (let p1 = drop_bit 0 encoded AND 1;
          p2 = drop_bit 1 encoded AND 1;
          d1 = drop_bit 2 encoded AND 1;
          p3 = drop_bit 3 encoded AND 1;
          d2 = drop_bit 4 encoded AND 1;
          d3 = drop_bit 5 encoded AND 1;
          d4 = drop_bit 6 encoded AND 1;
          s1 = p1 XOR d1 XOR d2 XOR d4;
          s2 = p2 XOR d1 XOR d3 XOR d4;
          s3 = p3 XOR d2 XOR d3 XOR d4;
          syndrome = push_bit 2 s3 OR push_bit 1 s2 OR s1
      in if syndrome \<noteq> 0 then
           (let encoded' = encoded XOR push_bit (unat syndrome - 1) 1;
                d1' = drop_bit 2 encoded' AND 1;
                d2' = drop_bit 4 encoded' AND 1;
                d3' = drop_bit 5 encoded' AND 1;
                d4' = drop_bit 6 encoded' AND 1
            in push_bit 3 d4' OR push_bit 2 d3' OR push_bit 1 d2' OR d1')
         else push_bit 3 d4 OR push_bit 2 d3 OR push_bit 1 d2 OR d1)"

section \<open>modulation.c: Manchester coding\<close>

text \<open>
  The inner loop of \<^verbatim>\<open>manchester_encode\<close>,
  \<^verbatim>\<open>for (int bit = 7; bit >= 0; bit--)\<close>, on the 16-bit accumulator
  \<^verbatim>\<open>encoded\<close>: a 1 bit appends the symbol 10, a 0 bit the symbol 01.
\<close>

function manchester_encode_bits :: "int \<Rightarrow> uint8 \<Rightarrow> uint16 \<Rightarrow> uint16" where
  "manchester_encode_bits b byte encoded =
     (if b \<ge> 0 then
        manchester_encode_bits (b - 1) byte
          (if drop_bit (nat b) byte AND 1 \<noteq> 0 then push_bit 2 encoded OR 2
           else push_bit 2 encoded OR 1)
      else encoded)"
  by pat_completeness auto
termination
  by (relation "measure (\<lambda>(b, byte, encoded). nat (b + 1))") auto

declare manchester_encode_bits.simps [simp del]

text \<open>
  \<^verbatim>\<open>void manchester_encode(input, output, input_bytes)\<close>: the result is the
  sequence of bytes stored into \<^verbatim>\<open>output\<close>, high byte of each 16-bit code first.
\<close>

fun manchester_encode :: "uint8 list \<Rightarrow> uint8 list" where
  "manchester_encode [] = []"
| "manchester_encode (byte # rest) =
     (let encoded = manchester_encode_bits 7 byte 0
      in ucast (drop_bit 8 encoded AND 0xFF) # ucast (encoded AND 0xFF) #
         manchester_encode rest)"

text \<open>
  The inner loop of \<^verbatim>\<open>manchester_decode\<close>, \<^verbatim>\<open>for (int j = 0; j < 8; j++)\<close>;
  \<open>None\<close> is the \<^verbatim>\<open>return -1\<close> on a symbol that is neither 10 nor 01.
\<close>

definition manchester_symbol :: "uint16 \<Rightarrow> int \<Rightarrow> uint8" where
  "manchester_symbol encoded j = ucast (drop_bit (nat (14 - j * 2)) encoded AND 3)"

function manchester_decode_symbols :: "int \<Rightarrow> uint16 \<Rightarrow> uint8 \<Rightarrow> uint8 option" where
  "manchester_decode_symbols j encoded decoded =
     (if j < 8 then
        (let symbol = manchester_symbol encoded j
         in if symbol = 2 then manchester_decode_symbols (j + 1) encoded (push_bit 1 decoded OR 1)
            else if symbol = 1 then manchester_decode_symbols (j + 1) encoded (push_bit 1 decoded OR 0)
            else None)
      else Some decoded)"
  by pat_completeness auto
termination
  by (relation "measure (\<lambda>(j, encoded, decoded). nat (8 - j))") auto

declare manchester_decode_symbols.simps [simp del]

text \<open>
  The outer loop \<^verbatim>\<open>for (size_t i = 0; i < input_bytes; i += 2)\<close> with the bytes
  written to \<^verbatim>\<open>output\<close> so far. It runs on an even number of bytes only (the
  length check comes first), so the one-byte case is never reached.
\<close>

fun manchester_decode_pairs :: "uint8 list \<Rightarrow> uint8 list \<Rightarrow> int \<times> uint8 list" where
  "manchester_decode_pairs (hi # lo # rest) output =
     (let encoded = push_bit 8 (ucast hi) OR ucast lo
      in case manchester_decode_symbols 0 encoded 0 of
           None \<Rightarrow> (-1, output)
         | Some decoded \<Rightarrow> manchester_decode_pairs rest (output @ [decoded]))"
| "manchester_decode_pairs _ output = (0, output)"

text \<open>
  \<^verbatim>\<open>int manchester_decode(input, output, input_bytes)\<close>: the return value
  (0, or -1 for a decode error) and the bytes written to \<^verbatim>\<open>output\<close>.
\<close>

definition manchester_decode :: "uint8 list \<Rightarrow> int \<times> uint8 list" where
  "manchester_decode input =
     (if length input mod 2 \<noteq> 0 then (-1, [])
      else manchester_decode_pairs input [])"

section \<open>wav\_player.c: amplitude to core count\<close>

text \<open>
  C's \<^verbatim>\<open>int\<close> is 32 bits wide here; \<open>int32\<close> is the value a 32-bit
  two's-complement register holds after an arithmetic result.
\<close>

definition int32 :: "int \<Rightarrow> int" where
  "int32 x = signed_take_bit 31 x"

text \<open>
  \<^verbatim>\<open>int sample_to_cores(int16_t sample, int max_cores)\<close>. The sample is promoted
  to \<^verbatim>\<open>int\<close> before \<^verbatim>\<open>abs\<close>; the product is a 32-bit multiplication and the
  division truncates towards zero.
\<close>

definition sample_to_cores :: "16 word \<Rightarrow> int \<Rightarrow> int" where
  "sample_to_cores sample max_cores =
     (let abs_sample = \<bar>sint sample\<bar>;
          cores = int32 (abs_sample * max_cores) sdiv 32768;
          cores = (if cores = 0 then 1 else cores);
          cores = (if cores > max_cores then max_cores else cores)
      in cores)"

section \<open>ofdm\_transmitter.c: the controller of an OFDM frame\<close>

text \<open>
  \<^verbatim>\<open>#define MAX_SUBCARRIERS 8\<close>, \<^verbatim>\<open>#define GUARD_INTERVAL_MS 10\<close>.
\<close>

definition MAX_SUBCARRIERS :: int where
  "MAX_SUBCARRIERS = 8"

definition GUARD_INTERVAL_MS :: int where
  "GUARD_INTERVAL_MS = 10"

record ofdm_params_t =
  num_subcarriers :: int
  base_freq :: int
  freq_spacing :: int
  symbol_duration_ms :: int

text \<open>
  What the controller thread does, in program order: each library call and each store
  to the shared array \<^verbatim>\<open>transmitting[]\<close> that the subcarrier workers read. The
  workers themselves run concurrently and are not part of the model; output to stdout
  is left out.
\<close>

datatype ofdm_effect =
    Barrier_init_start int
  | Barrier_init_sync int
  | Carrier_create int int
  | Barrier_wait_start
  | Set_transmitting int int
  | Barrier_wait_sync
  | Usleep int
  | Carrier_cancel int
  | Carrier_join int
  | Barrier_destroy_start
  | Barrier_destroy_sync

text \<open>
  The globals \<^verbatim>\<open>running\<close> and \<^verbatim>\<open>transmitting[MAX_SUBCARRIERS]\<close> and the
  effects so far. A store \<^verbatim>\<open>transmitting[i] = v\<close> with \<open>i\<close> past the array is
  undefined in C; the list update of the model ignores it, and the statements below
  are about \<open>num_subcarriers\<close> within the array.
\<close>

record ofdm_state =
  ofdm_running :: int
  transmitting :: "int list"
  ofdm_effects :: "ofdm_effect list"

definition ofdm_do :: "ofdm_effect \<Rightarrow> ofdm_state \<Rightarrow> ofdm_state" where
  "ofdm_do e st = st\<lparr>ofdm_effects := ofdm_effects st @ [e]\<rparr>"

definition set_transmitting :: "int \<Rightarrow> int \<Rightarrow> ofdm_state \<Rightarrow> ofdm_state" where
  "set_transmitting i v st =
     ofdm_do (Set_transmitting i v) (st\<lparr>transmitting := (transmitting st)[nat i := v]\<rparr>)"

text \<open>
  The loop of \<^verbatim>\<open>setup_ofdm_carriers\<close> that fills \<^verbatim>\<open>carriers[i]\<close> and creates the
  worker of subcarrier \<open>i\<close> with frequency \<^verbatim>\<open>base_freq + i * freq_spacing\<close>.
\<close>

function setup_carriers_loop :: "int \<Rightarrow> ofdm_params_t \<Rightarrow> ofdm_state \<Rightarrow> ofdm_state" where
  "setup_carriers_loop i params st =
     (if i < num_subcarriers params then
        setup_carriers_loop (i + 1) params
          (ofdm_do (Carrier_create i (base_freq params + i * freq_spacing params)) st)
      else st)"
  by pat_completeness auto
termination
  by (relation "measure (\<lambda>(i, params, st). nat (num_subcarriers params - i))") auto

declare setup_carriers_loop.simps [simp del]

definition setup_ofdm_carriers :: "ofdm_params_t \<Rightarrow> ofdm_state \<Rightarrow> ofdm_state" where
  "setup_ofdm_carriers params st =
     (let st = ofdm_do (Barrier_init_start (num_subcarriers params + 1)) st;
          st = ofdm_do (Barrier_init_sync (num_subcarriers params + 1)) st;
          st = setup_carriers_loop 0 params st
      in ofdm_do Barrier_wait_start st)"

text \<open>
  The first loop of \<^verbatim>\<open>transmit_ofdm_symbol\<close>:
  \<^verbatim>\<open>for (i = 0; i < params->num_subcarriers && i < 8; i++) transmitting[i] = (symbol >> i) & 1;\<close>
\<close>

function symbol_on_loop :: "int \<Rightarrow> uint8 \<Rightarrow> ofdm_params_t \<Rightarrow> ofdm_state \<Rightarrow> ofdm_state" where
  "symbol_on_loop i symbol params st =
     (if i < num_subcarriers params \<and> i < 8 then
        symbol_on_loop (i + 1) symbol params
          (set_transmitting i (uint (drop_bit (nat i) symbol AND 1)) st)
      else st)"
  by pat_completeness auto
termination
  by (relation "measure (\<lambda>(i, symbol, params, st). nat (8 - i))") auto

declare symbol_on_loop.simps [simp del]

text \<open>
  The second loop: \<^verbatim>\<open>for (i = 0; i < params->num_subcarriers; i++) transmitting[i] = 0;\<close>
\<close>

function symbol_off_loop :: "int \<Rightarrow> ofdm_params_t \<Rightarrow> ofdm_state \<Rightarrow> ofdm_state" where
  "symbol_off_loop i params st =
     (if i < num_subcarriers params then
        symbol_off_loop (i + 1) params (set_transmitting i 0 st)
      else st)"
  by pat_completeness auto
termination
  by (relation "measure (\<lambda>(i, params, st). nat (num_subcarriers params - i))") auto

declare symbol_off_loop.simps [simp del]

text \<open>
  \<^verbatim>\<open>void transmit_ofdm_symbol(uint8_t symbol, params, carriers)\<close>. Both sleeps take
  a product computed in \<^verbatim>\<open>int\<close>.
\<close>

definition transmit_ofdm_symbol :: "uint8 \<Rightarrow> ofdm_params_t \<Rightarrow> ofdm_state \<Rightarrow> ofdm_state" where
  "transmit_ofdm_symbol symbol params st =
     (let st = symbol_on_loop 0 symbol params st;
          st = ofdm_do Barrier_wait_sync st;
          st = ofdm_do (Usleep (int32 (symbol_duration_ms params * 1000))) st;
          st = symbol_off_loop 0 params st
      in ofdm_do (Usleep (int32 (GUARD_INTERVAL_MS * 1000))) st)"

text \<open>
  The preamble loop of \<^verbatim>\<open>transmit_ofdm_frame\<close>:
  \<^verbatim>\<open>for (int i = 0; i < 4; i++) { symbol(0xAA); symbol(0x55); }\<close>
\<close>

function ofdm_preamble_loop :: "int \<Rightarrow> ofdm_params_t \<Rightarrow> ofdm_state \<Rightarrow> ofdm_state" where
  "ofdm_preamble_loop i params st =
     (if i < 4 then
        ofdm_preamble_loop (i + 1) params
          (transmit_ofdm_symbol 0x55 params (transmit_ofdm_symbol 0xAA params st))
      else st)"
  by pat_completeness auto
termination
  by (relation "measure (\<lambda>(i, params, st). nat (4 - i))") auto

declare ofdm_preamble_loop.simps [simp del]

text \<open>
  The payload loop \<^verbatim>\<open>for (int i = 0; i < data_len; i++) transmit_ofdm_symbol(data[i], ...)\<close>
  over the bytes of \<^verbatim>\<open>data\<close> in index order.
\<close>

fun ofdm_data_loop :: "uint8 list \<Rightarrow> ofdm_params_t \<Rightarrow> ofdm_state \<Rightarrow> ofdm_state" where
  "ofdm_data_loop [] params st = st"
| "ofdm_data_loop (b # bs) params st = ofdm_data_loop bs params (transmit_ofdm_symbol b params st)"

text \<open>
  \<^verbatim>\<open>cleanup_carriers\<close>: cancel and join each worker.
\<close>

function cleanup_carriers :: "int \<Rightarrow> int \<Rightarrow> ofdm_state \<Rightarrow> ofdm_state" where
  "cleanup_carriers i num_carriers st =
     (if i < num_carriers then
        cleanup_carriers (i + 1) num_carriers (ofdm_do (Carrier_join i) (ofdm_do (Carrier_cancel i) st))
      else st)"
  by pat_completeness auto
termination
  by (relation "measure (\<lambda>(i, num_carriers, st). nat (num_carriers - i))") auto

declare cleanup_carriers.simps [simp del]

text \<open>
  \<^verbatim>\<open>void transmit_ofdm_frame(uint8_t* data, int data_len, ofdm_params_t* params)\<close>
\<close>

definition transmit_ofdm_frame :: "uint8 list \<Rightarrow> ofdm_params_t \<Rightarrow> ofdm_state \<Rightarrow> ofdm_state" where
  "transmit_ofdm_frame data params st =
     (let st = setup_ofdm_carriers params st;
          st = ofdm_preamble_loop 0 params st;
          st = ofdm_data_loop data params st;
          st = transmit_ofdm_symbol 0xFF params st;
          st = transmit_ofdm_symbol 0x00 params st;
          st = transmit_ofdm_symbol 0xFF params st;
          st = st\<lparr>ofdm_running := 0\<rparr>;
          st = cleanup_carriers 0 (num_subcarriers params) st;
          st = ofdm_do Barrier_destroy_start st
      in ofdm_do Barrier_destroy_sync st)"

subsection \<open>The effects of a frame, as a list\<close>

text \<open>
  The effects of one OFDM symbol with \<open>n = num_subcarriers\<close> subcarriers: subcarrier
  \<open>i\<close> is keyed on exactly when bit \<open>i\<close> of the symbol is 1, the controller releases
  the workers and sleeps for the symbol duration, then every subcarrier is keyed off
  and the guard interval follows.
\<close>

definition ofdm_symbol_trace :: "ofdm_params_t \<Rightarrow> uint8 \<Rightarrow> ofdm_effect list" where
  "ofdm_symbol_trace params symbol =
     map (\<lambda>i. Set_transmitting i (if bit symbol (nat i) then 1 else 0))
       [0..num_subcarriers params - 1] @
     [Barrier_wait_sync, Usleep (int32 (symbol_duration_ms params * 1000))] @
     map (\<lambda>i. Set_transmitting i 0) [0..num_subcarriers params - 1] @
     [Usleep 10000]"

text \<open>
  The effects of a frame that consists of the given symbols, between the creation and
  the cancellation of the subcarrier workers.
\<close>

definition ofdm_frame_trace :: "ofdm_params_t \<Rightarrow> uint8 list \<Rightarrow> ofdm_effect list" where
  "ofdm_frame_trace params symbols =
     [Barrier_init_start (num_subcarriers params + 1),
      Barrier_init_sync (num_subcarriers params + 1)] @
     map (\<lambda>i. Carrier_create i (base_freq params + i * freq_spacing params))
       [0..num_subcarriers params - 1] @
     [Barrier_wait_start] @
     concat (map (ofdm_symbol_trace params) symbols) @
     concat (map (\<lambda>i. [Carrier_cancel i, Carrier_join i]) [0..num_subcarriers params - 1]) @
     [Barrier_destroy_start, Barrier_destroy_sync]"

section \<open>main.c: the tone generator and the FSK framing\<close>

definition NANO_PER_SECOND :: int where
  "NANO_PER_SECOND = 1000000000"

definition MAX_CORES :: int where
  "MAX_CORES = 32"

definition MIN_FREQ :: int where
  "MIN_FREQ = 20"

definition MAX_FREQ :: int where
  "MAX_FREQ = 24000"

record fsk_params_t =
  freq_0 :: int
  freq_1 :: int
  bit_duration_ms :: int

text \<open>
  What the controller thread of \<^verbatim>\<open>main.c\<close> does, in program order: the pthread
  and sleep calls and the messages written to stderr (format string and integer
  arguments). Output to stdout and \<^verbatim>\<open>malloc\<close>/\<^verbatim>\<open>free\<close> are left out; the
  worker threads run concurrently and appear only through their creation and
  cancellation.
\<close>

datatype effect =
    Fprintf_stderr string "int list"
  | Pthread_barrier_init_hi int
  | Pthread_barrier_init_lo int
  | Pthread_create int
  | Pthread_barrier_wait_lo
  | Pthread_barrier_wait_hi
  | Nanosleep int
  | Pthread_cancel int
  | Pthread_barrier_destroy_hi
  | Pthread_barrier_destroy_lo

text \<open>
  The globals \<^verbatim>\<open>running\<close>, \<^verbatim>\<open>LO\<close>, \<^verbatim>\<open>cycle_nano\<close> and
  \<^verbatim>\<open>half_cycle_nano\<close>, and the environment of a run:
  \<^item> \<open>clock\<close> holds the readings that the coming calls of
    \<^verbatim>\<open>clock_gettime(CLOCK_MONOTONIC, ...)\<close> return, in nanoseconds; a call takes the
    first one. A run that asks for a reading when none is left has no result
    (\<open>None\<close>): the script was too short for it.
  \<^item> \<open>effects\<close> is the list of effects so far.
  \<^item> \<open>tone_calls\<close> is a log that the model adds: the arguments of every call of
    \<^verbatim>\<open>generate_tone\<close>, in order.
\<close>

record tx_state =
  running :: int
  LO :: int
  cycle_nano :: int
  half_cycle_nano :: int
  clock :: "int list"
  effects :: "effect list"
  tone_calls :: "(int \<times> int \<times> int) list"

definition do_effect :: "effect \<Rightarrow> tx_state \<Rightarrow> tx_state" where
  "do_effect e st = st\<lparr>effects := effects st @ [e]\<rparr>"

text \<open>
  \<^verbatim>\<open>int validate_frequency(int freq)\<close>
\<close>

definition validate_frequency :: "int \<Rightarrow> int" where
  "validate_frequency freq = (if freq \<ge> MIN_FREQ \<and> freq \<le> MAX_FREQ then 1 else 0)"

text \<open>
  The loop of \<^verbatim>\<open>generate_tone\<close> that creates the worker of core \<open>i\<close>.
\<close>

function create_workers :: "int \<Rightarrow> int \<Rightarrow> tx_state \<Rightarrow> tx_state" where
  "create_workers i num_cores st =
     (if i < num_cores then create_workers (i + 1) num_cores (do_effect (Pthread_create i) st)
      else st)"
  by pat_completeness auto
termination
  by (relation "measure (\<lambda>(i, num_cores, st). nat (num_cores - i))") auto

declare create_workers.simps [simp del]

function cancel_workers :: "int \<Rightarrow> int \<Rightarrow> tx_state \<Rightarrow> tx_state" where
  "cancel_workers i num_cores st =
     (if i < num_cores then cancel_workers (i + 1) num_cores (do_effect (Pthread_cancel i) st)
      else st)"
  by pat_completeness auto
termination
  by (relation "measure (\<lambda>(i, num_cores, st). nat (num_cores - i))") auto

declare cancel_workers.simps [simp del]

text \<open>
  One round of the main control loop of \<^verbatim>\<open>generate_tone\<close> after its elapsed-time
  check: the LO half cycle and the HI half cycle, each a store to \<^verbatim>\<open>LO\<close>, a
  barrier wait and a sleep of \<^verbatim>\<open>half_cycle_nano\<close>.
\<close>

definition drive_cycle :: "tx_state \<Rightarrow> tx_state" where
  "drive_cycle st =
     (let st = st\<lparr>LO := 0\<rparr>;
          st = do_effect Pthread_barrier_wait_lo st;
          st = do_effect (Nanosleep (half_cycle_nano st)) st;
          st = st\<lparr>LO := 1\<rparr>;
          st = do_effect Pthread_barrier_wait_hi st;
          st = do_effect (Nanosleep (half_cycle_nano st)) st
      in st)"

text \<open>
  The main control loop, \<^verbatim>\<open>while (running) { ... }\<close>, with the reading \<open>start\<close>
  taken before it and \<^verbatim>\<open>duration_nano\<close>. Each round reads the clock once and
  leaves when the elapsed time has reached the duration; otherwise it drives one cycle.
\<close>

function control_loop :: "int \<Rightarrow> int \<Rightarrow> tx_state \<Rightarrow> tx_state option" where
  "control_loop start duration_nano st =
     (if running st \<noteq> 0 then
        (case clock st of
           [] \<Rightarrow> None
         | current # rest \<Rightarrow>
             (let st = st\<lparr>clock := rest\<rparr>;
                  elapsed = current - start
              in if elapsed \<ge> duration_nano then Some st
                 else control_loop start duration_nano (drive_cycle st)))
      else Some st)"
  by pat_completeness auto
termination
  by (relation "measure (\<lambda>(start, duration_nano, st). length (clock st))")
     (auto simp: drive_cycle_def do_effect_def Let_def)

declare control_loop.simps [simp del]

text \<open>
  \<^verbatim>\<open>void generate_tone(int freq, int duration_ms, int num_cores)\<close>. The divisions
  have positive operands (the frequency has passed \<^verbatim>\<open>validate_frequency\<close>), where
  C's division and \<open>div\<close> agree; \<^verbatim>\<open>duration_nano\<close> is computed in \<^verbatim>\<open>long\<close>.
\<close>

definition generate_tone :: "int \<Rightarrow> int \<Rightarrow> int \<Rightarrow> tx_state \<Rightarrow> tx_state option" where
  "generate_tone freq duration_ms num_cores st =
     (let st = st\<lparr>tone_calls := tone_calls st @ [(freq, duration_ms, num_cores)]\<rparr>
      in if validate_frequency freq = 0 then
           Some (do_effect (Fprintf_stderr ''Invalid frequency: %d Hz (valid range: %d-%d Hz)\<newline>''
                              [freq, MIN_FREQ, MAX_FREQ]) st)
         else
           (let st = do_effect (Pthread_barrier_init_hi (num_cores + 1)) st;
                st = do_effect (Pthread_barrier_init_lo (num_cores + 1)) st;
                st = st\<lparr>cycle_nano := NANO_PER_SECOND div freq\<rparr>;
                st = st\<lparr>half_cycle_nano := cycle_nano st div 2\<rparr>;
                st = create_workers 0 num_cores st
            in case clock st of
                 [] \<Rightarrow> None
               | start # rest \<Rightarrow>
                   (let duration_nano = duration_ms * 1000000
                    in case control_loop start duration_nano (st\<lparr>clock := rest\<rparr>) of
                         None \<Rightarrow> None
                       | Some st \<Rightarrow>
                           (let st = st\<lparr>running := 0\<rparr>;
                                st = cancel_workers 0 num_cores st;
                                st = do_effect Pthread_barrier_destroy_hi st
                            in Some (do_effect Pthread_barrier_destroy_lo st)))))"

text \<open>
  \<^verbatim>\<open>void transmit_bit_fsk(int bit, fsk_params_t* params, int num_cores)\<close>
\<close>

definition transmit_bit_fsk :: "int \<Rightarrow> fsk_params_t \<Rightarrow> int \<Rightarrow> tx_state \<Rightarrow> tx_state option" where
  "transmit_bit_fsk b params num_cores st =
     (let freq = (if b \<noteq> 0 then freq_1 params else freq_0 params)
      in generate_tone freq (bit_duration_ms params) num_cores st)"

text \<open>
  The bit loop that \<^verbatim>\<open>main.c\<close> writes three times with the same body, for the
  preamble, for each payload byte and for the CRC:
  \<^verbatim>\<open>for (int i = 7; i >= 0; i--) { int bit = (byte >> i) & 1; transmit_bit_fsk(bit, params, num_cores); }\<close>
\<close>

function transmit_bits_from :: "int \<Rightarrow> uint8 \<Rightarrow> fsk_params_t \<Rightarrow> int \<Rightarrow> tx_state \<Rightarrow> tx_state option" where
  "transmit_bits_from i byte params num_cores st =
     (if i \<ge> 0 then
        (let b = uint (drop_bit (nat i) byte AND 1)
         in case transmit_bit_fsk b params num_cores st of
              None \<Rightarrow> None
            | Some st \<Rightarrow> transmit_bits_from (i - 1) byte params num_cores st)
      else Some st)"
  by pat_completeness auto
termination
  by (relation "measure (\<lambda>(i, byte, params, num_cores, st). nat (i + 1))") auto

declare transmit_bits_from.simps [simp del]

text \<open>
  \<^verbatim>\<open>void transmit_preamble(fsk_params_t* params, int num_cores)\<close>
\<close>

definition transmit_preamble :: "fsk_params_t \<Rightarrow> int \<Rightarrow> tx_state \<Rightarrow> tx_state option" where
  "transmit_preamble params num_cores st =
     (let preamble = 0xAA in transmit_bits_from 7 preamble params num_cores st)"

text \<open>
  \<^verbatim>\<open>uint8_t calculate_crc8(uint8_t* data, int len)\<close> of \<^verbatim>\<open>main.c\<close>, a second
  copy of the function of \<^verbatim>\<open>modulation.c\<close> with the polynomial in a local variable.
\<close>

function main_crc8_inner :: "int \<Rightarrow> uint8 \<Rightarrow> uint8 \<Rightarrow> uint8" where
  "main_crc8_inner j polynomial crc =
     (if j < 8 then
        main_crc8_inner (j + 1) polynomial
          (if crc AND 0x80 \<noteq> 0 then push_bit 1 crc XOR polynomial else push_bit 1 crc)
      else crc)"
  by pat_completeness auto
termination
  by (relation "measure (\<lambda>(j, polynomial, crc). nat (8 - j))") auto

declare main_crc8_inner.simps [simp del]

fun main_crc8_outer :: "uint8 list \<Rightarrow> uint8 \<Rightarrow> uint8 \<Rightarrow> uint8" where
  "main_crc8_outer [] polynomial crc = crc"
| "main_crc8_outer (b # bs) polynomial crc =
     main_crc8_outer bs polynomial (main_crc8_inner 0 polynomial (crc XOR b))"

definition main_calculate_crc8 :: "uint8 list \<Rightarrow> uint8" where
  "main_calculate_crc8 data =
     (let crc = 0x00; polynomial = 0x07 in main_crc8_outer data polynomial crc)"

text \<open>
  The payload loop of \<^verbatim>\<open>transmit_data_fsk\<close> over \<^verbatim>\<open>data[byte_idx]\<close>.
\<close>

fun transmit_payload :: "uint8 list \<Rightarrow> fsk_params_t \<Rightarrow> int \<Rightarrow> tx_state \<Rightarrow> tx_state option" where
  "transmit_payload [] params num_cores st = Some st"
| "transmit_payload (byte # rest) params num_cores st =
     (case transmit_bits_from 7 byte params num_cores st of
        None \<Rightarrow> None
      | Some st \<Rightarrow> transmit_payload rest params num_cores st)"

text \<open>
  \<^verbatim>\<open>void transmit_data_fsk(uint8_t* data, int data_len, fsk_params_t* params, int num_cores)\<close>;
  the CRC is computed over the whole of \<^verbatim>\<open>data\<close>.
\<close>

definition transmit_data_fsk :: "uint8 list \<Rightarrow> fsk_params_t \<Rightarrow> int \<Rightarrow> tx_state \<Rightarrow> tx_state option" where
  "transmit_data_fsk data params num_cores st =
     (case transmit_preamble params num_cores st of
        None \<Rightarrow> None
      | Some st \<Rightarrow>
          (case transmit_payload data params num_cores st of
             None \<Rightarrow> None
           | Some st \<Rightarrow>
               (let crc = main_calculate_crc8 data
                in transmit_bits_from 7 crc params num_cores st)))"

subsection \<open>The command line\<close>

text \<open>
  The C library's \<^verbatim>\<open>atoi\<close> on an argument string: leading white space, an optional
  sign, then decimal digits up to the first other character; 0 when there is no digit.
  Values beyond the range of \<^verbatim>\<open>int\<close> are not modelled.
\<close>

definition is_space :: "char \<Rightarrow> bool" where
  "is_space c = (c \<in> set [CHR '' '', CHR 0x09, CHR 0x0A, CHR 0x0B, CHR 0x0C, CHR 0x0D])"

definition is_digit :: "char \<Rightarrow> bool" where
  "is_digit c = (48 \<le> (of_char c :: nat) \<and> (of_char c :: nat) \<le> 57)"

fun atoi_digits :: "string \<Rightarrow> int \<Rightarrow> int" where
  "atoi_digits [] acc = acc"
| "atoi_digits (c # cs) acc =
     (if is_digit c then atoi_digits cs (acc * 10 + (of_char c - 48)) else acc)"

definition atoi :: "string \<Rightarrow> int" where
  "atoi s =
     (case dropWhile is_space s of
        [] \<Rightarrow> 0
      | c # cs \<Rightarrow>
          if c = CHR ''-'' then - atoi_digits cs 0
          else if c = CHR ''+'' then atoi_digits cs 0
          else atoi_digits (c # cs) 0)"

text \<open>
  \<^verbatim>\<open>int main(int argc, char* argv[])\<close> of \<^verbatim>\<open>main.c\<close>: \<open>argv\<close> is the argument
  vector with the program name first, the result is the exit code and the final state.
  The signal handlers that \<^verbatim>\<open>main\<close> installs act asynchronously and are not
  modelled.
\<close>

definition transmitter_main :: "string list \<Rightarrow> tx_state \<Rightarrow> (int \<times> tx_state) option" where
  "transmitter_main argv st =
     (let argc = int (length argv)
      in if argc < 2 then Some (1, st)
         else if argv ! 1 = ''tone'' then
           (if argc \<noteq> 5 then Some (1, st)
            else
              (let freq = atoi (argv ! 2);
                   duration = atoi (argv ! 3);
                   cores = atoi (argv ! 4)
               in if cores < 1 \<or> cores > MAX_CORES then
                    Some (1, do_effect (Fprintf_stderr ''Error: Number of cores must be between 1 and %d\<newline>''
                                          [MAX_CORES]) st)
                  else
                    (case generate_tone freq duration cores st of
                       None \<Rightarrow> None
                     | Some st \<Rightarrow> Some (0, st))))
         else if argv ! 1 = ''fsk'' then
           (if argc \<noteq> 7 then Some (1, st)
            else
              (let params = \<lparr>freq_0 = atoi (argv ! 2), freq_1 = atoi (argv ! 3),
                              bit_duration_ms = atoi (argv ! 4)\<rparr>;
                   cores = atoi (argv ! 5);
                   message = argv ! 6
               in if validate_frequency (freq_0 params) = 0 \<or> validate_frequency (freq_1 params) = 0 then
                    Some (1, do_effect (Fprintf_stderr ''Error: Frequencies must be between %d and %d Hz\<newline>''
                                          [MIN_FREQ, MAX_FREQ]) st)
                  else if cores < 1 \<or> cores > MAX_CORES then
                    Some (1, do_effect (Fprintf_stderr ''Error: Number of cores must be between 1 and %d\<newline>''
                                          [MAX_CORES]) st)
                  else
                    (case transmit_data_fsk (map of_char message) params cores st of
                       None \<Rightarrow> None
                     | Some st \<Rightarrow> Some (0, st))))
         else if argv ! 1 = ''wav'' then Some (1, st)
         else Some (1, st))"

subsection \<open>The initial state and the clock script\<close>

text \<open>
  The globals as \<^verbatim>\<open>main.c\<close> initialises them
  (\<^verbatim>\<open>LO = 0\<close>, \<^verbatim>\<open>running = 1\<close>, \<^verbatim>\<open>cycle_nano = 0\<close>, \<^verbatim>\<open>half_cycle_nano = 0\<close>),
  with a given clock script and nothing done yet.
\<close>

definition initial_state :: "int list \<Rightarrow> tx_state" where
  "initial_state readings =
     \<lparr>running = 1, LO = 0, cycle_nano = 0, half_cycle_nano = 0,
      clock = readings, effects = [], tone_calls = []\<rparr>"

text \<open>
  A clock script that lets \<open>n\<close> more calls of \<^verbatim>\<open>generate_tone\<close> with duration
  \<open>duration_ms\<close> return. A call with a valid frequency reads the clock once for the
  start and, while \<^verbatim>\<open>running\<close> is set, once more in every round of its loop,
  which it leaves when a reading is at least the duration past the start; it clears
  \<^verbatim>\<open>running\<close> when it returns, so the calls after it read the clock once each.
  While \<^verbatim>\<open>running\<close> is set it is enough that the reading \<open>k + 1\<close> is a duration
  past the first one and that \<open>n - 1\<close> more readings follow it.
\<close>

definition clock_suffices :: "int \<Rightarrow> nat \<Rightarrow> tx_state \<Rightarrow> bool" where
  "clock_suffices duration_ms n st =
     (if running st \<noteq> 0 then
        n \<noteq> 0 \<longrightarrow>
          (\<exists>k < length (clock st).
             Suc k < length (clock st) \<and>
             duration_ms * 1000000 \<le> clock st ! Suc k - clock st ! 0 \<and>
             n + k + 1 \<le> length (clock st))
      else n \<le> length (clock st))"

text \<open>
  The arguments of the call of \<^verbatim>\<open>generate_tone\<close> that transmits one bit:
  \<^verbatim>\<open>freq_1\<close> for a 1 bit and \<^verbatim>\<open>freq_0\<close> for a 0 bit, for the bit duration, on
  the given number of cores.
\<close>

definition bit_call :: "fsk_params_t \<Rightarrow> int \<Rightarrow> bool \<Rightarrow> int \<times> int \<times> int" where
  "bit_call params num_cores b =
     (if b then freq_1 params else freq_0 params, bit_duration_ms params, num_cores)"

section \<open>CRC-8: the code against the reference\<close>

lemma msb_test: "(c AND 0x80 \<noteq> 0) = bit (c::uint8) 7"
proof -
  have "(0x80::uint8) = 2 ^ 7" by simp
  then show ?thesis by (simp only: and_exp_eq_0_iff_not_bit) simp
qed

lemma crc8_shift_reference: "crc8_shift = crc8_reference_step"
  by (rule ext) (simp add: crc8_shift_def crc8_reference_step_def msb_test CRC8_POLYNOMIAL_def)

lemma crc8_inner_reference: "crc8_inner 0 c = (crc8_reference_step ^^ 8) c"
  by (simp add: crc8_inner.simps numeral_eq_Suc funpow_swap1 crc8_shift_reference)

lemma crc8_outer_reference:
  "crc8_outer data c = foldl (\<lambda>acc byte. (crc8_reference_step ^^ 8) (acc XOR byte)) c data"
  by (induction data arbitrary: c) (simp_all add: crc8_inner_reference)

lemma calculate_crc8_reference: "calculate_crc8 data = crc8_reference data"
  by (simp add: calculate_crc8_def crc8_reference_def crc8_outer_reference)

text \<open>
  The usual check value of this CRC-8 (polynomial 0x07, initial value 0x00, no
  reflection, no final XOR): the ASCII digits \<open>"123456789"\<close> give 0xF4.
\<close>

lemma calculate_crc8_check_value: "calculate_crc8 (map of_char ''123456789'') = 0xF4"
  by code_simp

lemma main_crc8_inner_eq: "main_crc8_inner j 0x07 c = crc8_inner j c"
proof (induction j c rule: crc8_inner.induct)
  case (1 j crc)
  show ?case
  proof (cases "j < 8")
    case True
    have "main_crc8_inner j 0x07 crc = main_crc8_inner (j + 1) 0x07 (crc8_shift crc)"
      using True by (subst main_crc8_inner.simps) (simp add: crc8_shift_def CRC8_POLYNOMIAL_def)
    also have "\<dots> = crc8_inner (j + 1) (crc8_shift crc)"
      using True by (rule "1.IH")
    also have "\<dots> = crc8_inner j crc"
      using True by (subst (2) crc8_inner.simps) simp
    finally show ?thesis .
  next
    case False
    then show ?thesis
      by (subst main_crc8_inner.simps, subst crc8_inner.simps) simp
  qed
qed

lemma main_crc8_outer_eq: "main_crc8_outer data 0x07 c = crc8_outer data c"
  by (induction data arbitrary: c) (simp_all add: main_crc8_inner_eq)

lemma main_calculate_crc8_eq: "main_calculate_crc8 data = calculate_crc8 data"
  by (simp add: main_calculate_crc8_def calculate_crc8_def main_crc8_outer_eq)

lemma crc8_reference_step_xor:
  "crc8_reference_step (a XOR b) = crc8_reference_step a XOR crc8_reference_step b"
  by (simp add: crc8_reference_step_def bit_xor_iff push_bit_xor xor.assoc xor.left_commute
      xor.commute)

lemma crc8_steps_xor:
  "(crc8_reference_step ^^ j) (a XOR b) = (crc8_reference_step ^^ j) a XOR (crc8_reference_step ^^ j) b"
  by (induction j arbitrary: a b) (simp_all add: crc8_reference_step_xor)

lemma crc8_steps_zero: "(crc8_reference_step ^^ j) 0 = 0"
  by (induction j) (simp_all add: crc8_reference_step_def funpow_swap1)

lemma crc8_reference_step_exp:
  "i < 7 \<Longrightarrow> crc8_reference_step (2 ^ i) = 2 ^ Suc i"
  by (simp add: crc8_reference_step_def bit_exp_iff push_bit_eq_mult)

lemma crc8_steps_exp:
  "i + j \<le> 7 \<Longrightarrow> (crc8_reference_step ^^ j) (2 ^ i) = 2 ^ (i + j)"
proof (induction j arbitrary: i)
  case 0
  then show ?case by simp
next
  case (Suc j)
  then have "i < 7" "Suc i + j \<le> 7" by simp_all
  then show ?case
    using Suc.IH [of "Suc i"] by (simp add: funpow_swap1 crc8_reference_step_exp)
qed

lemma crc8_bit_step_reference:
  "crc8_bit_step acc b = crc8_reference_step (acc XOR (if b then 2 ^ 7 else 0))"
proof -
  have p: "push_bit 1 (2 ^ 7 :: uint8) = 0" by simp
  have "bit (acc XOR 2 ^ 7) 7 = (\<not> bit acc 7)" by (simp add: bit_xor_iff bit_exp_iff)
  moreover have "push_bit 1 (acc XOR 2 ^ 7) = push_bit 1 acc"
    by (simp only: push_bit_xor p) simp
  ultimately show ?thesis
    by (cases b) (simp_all only: crc8_bit_step_def crc8_reference_step_def if_True if_False, auto)
qed

lemma top_bits_step:
  assumes "j < 8"
  shows "push_bit (7 - j) (drop_bit (7 - j) (byte::uint8)) =
         push_bit (8 - j) (drop_bit (8 - j) byte) XOR (if bit byte (7 - j) then 2 ^ (7 - j) else 0)"
proof (rule bit_word_eqI)
  fix n assume "n < LENGTH(8)"
  with assms show "bit (push_bit (7 - j) (drop_bit (7 - j) byte)) n =
    bit (push_bit (8 - j) (drop_bit (8 - j) byte) XOR (if bit byte (7 - j) then 2 ^ (7 - j) else 0)) n"
    by (cases "n = 7 - j")
       (auto simp: bit_xor_iff bit_push_bit_iff bit_drop_bit_eq bit_exp_iff possible_bit_word)
qed

lemma crc8_bits_of_byte:
  "j \<le> 8 \<Longrightarrow>
   foldl crc8_bit_step c (map (bit byte) (rev [8 - j..<8])) =
   (crc8_reference_step ^^ j) (c XOR push_bit (8 - j) (drop_bit (8 - j) byte))"
proof (induction j)
  case 0
  show ?case by simp
next
  case (Suc j)
  then have j: "j < 8" "j \<le> 8" by simp_all
  then have "Suc (7 - j) = 8 - j" "8 - Suc j = 7 - j" "7 - j < 8" by arith+
  then have u: "[8 - Suc j..<8] = (7 - j) # [8 - j..<8]" "[7 - j..<8] = (7 - j) # [8 - j..<8]"
    by (simp_all only: upt_conv_Cons)
  have e: "(crc8_reference_step ^^ j) (if bit byte (7 - j) then 2 ^ (7 - j) else 0) =
           (if bit byte (7 - j) then 2 ^ 7 else 0)"
    using j crc8_steps_exp [of "7 - j" j] by (simp add: crc8_steps_zero)
  have "foldl crc8_bit_step c (map (bit byte) (rev [8 - Suc j..<8])) =
        crc8_bit_step ((crc8_reference_step ^^ j) (c XOR push_bit (8 - j) (drop_bit (8 - j) byte)))
          (bit byte (7 - j))"
    by (simp add: u Suc.IH [OF j(2)])
  also have "\<dots> = crc8_reference_step
        ((crc8_reference_step ^^ j) (c XOR push_bit (8 - j) (drop_bit (8 - j) byte)) XOR
         (crc8_reference_step ^^ j) (if bit byte (7 - j) then 2 ^ (7 - j) else 0))"
    by (simp only: crc8_bit_step_reference e)
  also have "\<dots> = crc8_reference_step
        ((crc8_reference_step ^^ j) (c XOR push_bit (7 - j) (drop_bit (7 - j) byte)))"
    by (simp only: crc8_steps_xor [symmetric] top_bits_step [OF j(1)] xor.assoc)
  also have "\<dots> = (crc8_reference_step ^^ Suc j)
        (c XOR push_bit (8 - Suc j) (drop_bit (8 - Suc j) byte))"
    by simp
  finally show ?case .
qed

lemma crc8_byte_bit_serial:
  "foldl crc8_bit_step c (map (bit byte) [7, 6, 5, 4, 3, 2, 1, 0]) =
   (crc8_reference_step ^^ 8) (c XOR byte)"
proof -
  have "rev [8 - 8..<8] = [7, 6, 5, 4, 3, 2, 1, 0::nat]"
    by (simp add: upt_rec)
  with crc8_bits_of_byte [of 8 c byte] show ?thesis by simp
qed

lemma crc8_bit_serial_foldl:
  "foldl crc8_bit_step c (message_bits data) =
   foldl (\<lambda>acc byte. (crc8_reference_step ^^ 8) (acc XOR byte)) c data"
proof (induction data arbitrary: c)
  case Nil
  show ?case by (simp add: message_bits_def)
next
  case (Cons byte rest)
  have "message_bits (byte # rest) = map (bit byte) [7, 6, 5, 4, 3, 2, 1, 0] @ message_bits rest"
    by (simp add: message_bits_def)
  then show ?case
    by (simp only: foldl_append crc8_byte_bit_serial Cons.IH foldl_Cons)
qed

lemma crc8_reference_bit_serial: "crc8_reference data = crc8_bit_serial data"
  by (simp add: crc8_reference_def crc8_bit_serial_def crc8_bit_serial_foldl)

text \<open>
  C2. \<^verbatim>\<open>calculate_crc8\<close>, in \<^verbatim>\<open>modulation.c\<close> and in its copy in \<^verbatim>\<open>main.c\<close>, is
  the reference CRC-8 of the specification (polynomial 0x07, initial value 0x00, most
  significant bit first; per input byte the byte is XORed into the accumulator and
  eight shift/XOR steps follow), which is the bit-serial division of the message by
  the polynomial, and \<^verbatim>\<open>verify_crc8\<close> accepts the CRC computed for the same data,
  for every byte sequence.
\<close>

theorem crc8_is_reference_and_self_consistent:
  "calculate_crc8 data = crc8_reference data \<and>
   calculate_crc8 data = crc8_bit_serial data \<and>
   main_calculate_crc8 data = crc8_reference data \<and>
   verify_crc8 data (calculate_crc8 data) = 1"
proof -
  have r: "calculate_crc8 data = crc8_reference data"
    by (rule calculate_crc8_reference)
  then have s: "calculate_crc8 data = crc8_bit_serial data"
    by (simp only: crc8_reference_bit_serial)
  have m: "main_calculate_crc8 data = crc8_reference data"
    by (simp only: main_calculate_crc8_eq r)
  have v: "verify_crc8 data (calculate_crc8 data) = 1"
    by (simp add: verify_crc8_def)
  from r s m v show ?thesis by blast
qed

section \<open>Hamming(7,4): round trip and single-error correction\<close>

lemma nat_below_16: "(k::nat) < 16 \<Longrightarrow> k \<in> {0,1,2,3,4,5,6,7,8,9,10,11,12,13,14,15}"
  by (simp add: numeral_eq_Suc less_Suc_eq)

lemma nat_below_7: "(k::nat) < 7 \<Longrightarrow> k \<in> {0,1,2,3,4,5,6}"
  by (simp add: numeral_eq_Suc less_Suc_eq)

lemma nibble_cases:
  assumes "(n::uint8) < 16"
  shows "n \<in> {0,1,2,3,4,5,6,7,8,9,10,11,12,13,14,15}"
proof -
  from assms have "unat n < 16" by (simp add: word_less_nat_alt)
  then have "unat n \<in> {0,1,2,3,4,5,6,7,8,9,10,11,12,13,14,15}" by (rule nat_below_16)
  then have "(of_nat (unat n) :: uint8) \<in> of_nat ` {0,1,2,3,4,5,6,7,8,9,10,11,12,13,14,15}"
    by (rule imageI)
  then show ?thesis by simp
qed

lemma hamming74_roundtrip: "n < 16 \<Longrightarrow> hamming74_decode (hamming74_encode n) = n"
  by (drule nibble_cases) (auto simp: hamming74_decode_def hamming74_encode_def Let_def)

lemma hamming74_corrects:
  "n < 16 \<Longrightarrow> k < 7 \<Longrightarrow> hamming74_decode (hamming74_encode n XOR push_bit k 1) = n"
  apply (drule nibble_cases)
  apply (drule nat_below_7)
  apply (simp only: insert_iff empty_iff)
  apply (elim disjE FalseE)
  apply (simp_all add: hamming74_decode_def hamming74_encode_def Let_def)
  done

lemma hamming74_parity:
  "n < 16 \<Longrightarrow>
   bit (hamming74_encode n) 0 = (bit n 0 \<noteq> (bit n 1 \<noteq> bit n 3)) \<and>
   bit (hamming74_encode n) 1 = (bit n 0 \<noteq> (bit n 2 \<noteq> bit n 3)) \<and>
   bit (hamming74_encode n) 3 = (bit n 1 \<noteq> (bit n 2 \<noteq> bit n 3)) \<and>
   bit (hamming74_encode n) 2 = bit n 0 \<and>
   bit (hamming74_encode n) 4 = bit n 1 \<and>
   bit (hamming74_encode n) 5 = bit n 2 \<and>
   bit (hamming74_encode n) 6 = bit n 3 \<and>
   \<not> bit (hamming74_encode n) 7"
  apply (drule nibble_cases)
  apply (simp only: insert_iff empty_iff)
  apply (elim disjE FalseE)
  apply (simp_all add: hamming74_encode_def Let_def)
  done

text \<open>
  C7. For every 4-bit value \<open>n\<close> (0 to 15), with the data bits \<open>d1..d4\<close> being bits
  0..3 of \<open>n\<close>: the encoded word carries \<open>p1 = d1 \<oplus> d2 \<oplus> d4\<close> in bit 0,
  \<open>p2 = d1 \<oplus> d3 \<oplus> d4\<close> in bit 1, \<open>p3 = d2 \<oplus> d3 \<oplus> d4\<close> in bit 3 and the data bits in
  bits 2, 4, 5, 6; decoding the encoded word gives \<open>n\<close> back; and decoding the encoded
  word with any one of its seven bits flipped gives \<open>n\<close> back as well.
\<close>

theorem hamming74_decode_encode:
  assumes "n < 16"
  shows "hamming74_decode (hamming74_encode n) = n \<and>
         (\<forall>k<7. hamming74_decode (hamming74_encode n XOR push_bit k 1) = n) \<and>
         bit (hamming74_encode n) 0 = (bit n 0 \<noteq> (bit n 1 \<noteq> bit n 3)) \<and>
         bit (hamming74_encode n) 1 = (bit n 0 \<noteq> (bit n 2 \<noteq> bit n 3)) \<and>
         bit (hamming74_encode n) 3 = (bit n 1 \<noteq> (bit n 2 \<noteq> bit n 3)) \<and>
         bit (hamming74_encode n) 2 = bit n 0 \<and>
         bit (hamming74_encode n) 4 = bit n 1 \<and>
         bit (hamming74_encode n) 5 = bit n 2 \<and>
         bit (hamming74_encode n) 6 = bit n 3"
  using assms hamming74_roundtrip [OF assms] hamming74_corrects [OF assms]
    hamming74_parity [OF assms]
  by blast

theorem hamming74_decode_encode_witness:
  "(11::uint8) < 16 \<and> hamming74_encode 11 = 0x55 \<and>
   hamming74_decode (hamming74_encode 11) = 11 \<and>
   (3::nat) < 7 \<and> hamming74_decode (hamming74_encode 11 XOR push_bit 3 1) = 11"
proof -
  have h: "(11::uint8) < 16" by simp
  have e: "hamming74_encode 11 = 0x55" by (simp add: hamming74_encode_def Let_def)
  have k: "(3::nat) < 7" by simp
  from hamming74_decode_encode [OF h] have
    a: "hamming74_decode (hamming74_encode 11) = 11" and
    b: "\<forall>k<7. hamming74_decode (hamming74_encode 11 XOR push_bit k 1) = 11"
    by blast+
  from b k have c: "hamming74_decode (hamming74_encode 11 XOR push_bit 3 1) = 11" by blast
  from h a c e k show ?thesis by simp
qed

section \<open>sample\_to\_cores: the range of the result\<close>

text \<open>
  C10, as stated, fails: for \<open>max_cores = 65536\<close> and the sample \<open>-32768\<close> the 32-bit
  product \<open>32768 * 65536\<close> wraps to \<open>-2^31\<close>, and the result is \<open>-65536\<close>.
\<close>

theorem sample_to_cores_counterexample:
  "(1::int) \<le> 65536 \<and> sample_to_cores (- 32768) 65536 = - 65536 \<and>
   \<not> (1 \<le> sample_to_cores (- 32768) 65536 \<and> sample_to_cores (- 32768) 65536 \<le> 65536)"
  by (simp add: sample_to_cores_def int32_def signed_divide_int_def
      signed_take_bit_eq_take_bit_shift take_bit_eq_mod)

text \<open>
  C10, amended. For every 16-bit signed sample and every \<open>max_cores\<close> from 1 to 65535
  (the range in which \<open>32768 * max_cores\<close> fits a 32-bit \<^verbatim>\<open>int\<close>; \<^verbatim>\<open>main\<close> admits 1 to
  \<open>MAX_CORES = 32\<close>), \<open>sample_to_cores\<close> returns a value from 1 to \<open>max_cores\<close>.
\<close>

theorem sample_to_cores_range:
  assumes "1 \<le> max_cores" and "max_cores \<le> 65535"
  shows "1 \<le> sample_to_cores sample max_cores \<and> sample_to_cores sample max_cores \<le> max_cores"
proof -
  define a where "a = \<bar>sint sample\<bar>"
  have a: "0 \<le> a" "a \<le> 32768"
    using sint_range_size [of sample] by (auto simp: a_def word_size)
  have p0: "0 \<le> a * max_cores" using a assms by simp
  have "a * max_cores \<le> 32768 * 65535" using a assms by (intro mult_mono) auto
  then have p1: "a * max_cores < 2 ^ 31" by simp
  have w: "int32 (a * max_cores) = a * max_cores"
    unfolding int32_def using p0 p1 by (simp add: signed_take_bit_int_eq_self)
  have d: "(a * max_cores) sdiv 32768 = (a * max_cores) div 32768"
    using p0 by (simp add: signed_divide_int_def sgn_if)
  have d0: "0 \<le> (a * max_cores) div 32768" using p0 by simp
  show ?thesis
    using assms d0 unfolding sample_to_cores_def a_def [symmetric] Let_def w d by auto
qed

theorem sample_to_cores_range_witness:
  "(1::int) \<le> 32 \<and> (32::int) \<le> 65535 \<and>
   1 \<le> sample_to_cores (- 32768) 32 \<and> sample_to_cores (- 32768) 32 \<le> 32"
proof -
  have h1: "(1::int) \<le> 32" and h2: "(32::int) \<le> 65535" by simp_all
  from sample_to_cores_range [OF h1 h2, of "- 32768"] h1 h2 show ?thesis by simp
qed

section \<open>The OFDM frame\<close>

lemma upto_from: "i \<le> j \<Longrightarrow> [i..j] = i # [i + 1..j]"
  by (simp add: upto_rec1)

lemma low_bit_uint: "uint (drop_bit k (w::uint8) AND 1) = (if bit w k then 1 else 0)"
  by (simp add: and_one_eq bit_iff_odd_drop_bit uint_mod_distrib mod_2_eq_odd)

lemma ofdm_effects_do [simp]: "ofdm_effects (ofdm_do e st) = ofdm_effects st @ [e]"
  by (simp add: ofdm_do_def)

lemma ofdm_effects_set [simp]:
  "ofdm_effects (set_transmitting i v st) = ofdm_effects st @ [Set_transmitting i v]"
  by (simp add: set_transmitting_def)

lemma setup_carriers_loop_effects:
  "ofdm_effects (setup_carriers_loop i params st) =
   ofdm_effects st @
   map (\<lambda>i. Carrier_create i (base_freq params + i * freq_spacing params))
     [i..num_subcarriers params - 1]"
proof (induction i params st rule: setup_carriers_loop.induct)
  case (1 i params st)
  show ?case
  proof (cases "i < num_subcarriers params")
    case True
    then have u: "[i..num_subcarriers params - 1] = i # [i + 1..num_subcarriers params - 1]"
      by (simp add: upto_from)
    show ?thesis
      by (subst setup_carriers_loop.simps) (simp add: True "1.IH" [OF True] u)
  next
    case False
    then show ?thesis
      by (subst setup_carriers_loop.simps) simp
  qed
qed

lemma symbol_on_loop_effects:
  "num_subcarriers params \<le> 8 \<Longrightarrow> 0 \<le> i \<Longrightarrow>
   ofdm_effects (symbol_on_loop i symbol params st) =
   ofdm_effects st @
   map (\<lambda>i. Set_transmitting i (if bit symbol (nat i) then 1 else 0))
     [i..num_subcarriers params - 1]"
proof (induction i symbol params st rule: symbol_on_loop.induct)
  case (1 i symbol params st)
  show ?case
  proof (cases "i < num_subcarriers params")
    case True
    then have u: "[i..num_subcarriers params - 1] = i # [i + 1..num_subcarriers params - 1]"
      by (simp add: upto_from)
    from True "1.prems" have c: "i < num_subcarriers params \<and> i < 8" by simp
    define v where "v = uint (drop_bit (nat i) symbol AND 1)"
    have v: "v = (if bit symbol (nat i) then 1 else 0)"
      by (simp add: v_def low_bit_uint)
    have "ofdm_effects (symbol_on_loop i symbol params st) =
          ofdm_effects (symbol_on_loop (i + 1) symbol params (set_transmitting i v st))"
      by (subst symbol_on_loop.simps) (simp add: c v_def)
    also have "\<dots> = ofdm_effects (set_transmitting i v st) @
              map (\<lambda>i. Set_transmitting i (if bit symbol (nat i) then 1 else 0))
                [i + 1..num_subcarriers params - 1]"
      unfolding v_def using "1.prems" by (intro "1.IH" [OF c]) simp_all
    also have "\<dots> = ofdm_effects st @
              map (\<lambda>i. Set_transmitting i (if bit symbol (nat i) then 1 else 0))
                [i..num_subcarriers params - 1]"
      by (simp add: u v)
    finally show ?thesis .
  next
    case False
    then show ?thesis
      by (subst symbol_on_loop.simps) simp
  qed
qed

lemma symbol_off_loop_effects:
  "ofdm_effects (symbol_off_loop i params st) =
   ofdm_effects st @ map (\<lambda>i. Set_transmitting i 0) [i..num_subcarriers params - 1]"
proof (induction i params st rule: symbol_off_loop.induct)
  case (1 i params st)
  show ?case
  proof (cases "i < num_subcarriers params")
    case True
    then have u: "[i..num_subcarriers params - 1] = i # [i + 1..num_subcarriers params - 1]"
      by (simp add: upto_from)
    show ?thesis
      by (subst symbol_off_loop.simps) (simp add: True "1.IH" [OF True] u)
  next
    case False
    then show ?thesis
      by (subst symbol_off_loop.simps) simp
  qed
qed

lemma cleanup_carriers_effects:
  "ofdm_effects (cleanup_carriers i n st) =
   ofdm_effects st @ concat (map (\<lambda>i. [Carrier_cancel i, Carrier_join i]) [i..n - 1])"
proof (induction i n st rule: cleanup_carriers.induct)
  case (1 i n st)
  show ?case
  proof (cases "i < n")
    case True
    then have u: "[i..n - 1] = i # [i + 1..n - 1]"
      by (simp add: upto_from)
    show ?thesis
      by (subst cleanup_carriers.simps) (simp add: True "1.IH" [OF True] u)
  next
    case False
    then show ?thesis
      by (subst cleanup_carriers.simps) simp
  qed
qed

lemma transmit_ofdm_symbol_effects:
  "num_subcarriers params \<le> 8 \<Longrightarrow>
   ofdm_effects (transmit_ofdm_symbol symbol params st) =
   ofdm_effects st @ ofdm_symbol_trace params symbol"
  by (simp add: transmit_ofdm_symbol_def ofdm_symbol_trace_def Let_def
      symbol_on_loop_effects symbol_off_loop_effects GUARD_INTERVAL_MS_def int32_def
      signed_take_bit_int_eq_self)

lemma ofdm_preamble_loop_effects:
  "num_subcarriers params \<le> 8 \<Longrightarrow>
   ofdm_effects (ofdm_preamble_loop 0 params st) =
   ofdm_effects st @
   concat (map (ofdm_symbol_trace params) [0xAA, 0x55, 0xAA, 0x55, 0xAA, 0x55, 0xAA, 0x55])"
  by (simp add: ofdm_preamble_loop.simps transmit_ofdm_symbol_effects)

lemma ofdm_data_loop_effects:
  "num_subcarriers params \<le> 8 \<Longrightarrow>
   ofdm_effects (ofdm_data_loop data params st) =
   ofdm_effects st @ concat (map (ofdm_symbol_trace params) data)"
  by (induction data arbitrary: st) (simp_all add: transmit_ofdm_symbol_effects)

lemma transmit_ofdm_frame_effects:
  assumes n: "num_subcarriers params \<le> 8"
  shows "ofdm_effects (transmit_ofdm_frame data params st) =
         ofdm_effects st @
         ofdm_frame_trace params
           ([0xAA, 0x55, 0xAA, 0x55, 0xAA, 0x55, 0xAA, 0x55] @ data @ [0xFF, 0x00, 0xFF])"
  by (simp add: transmit_ofdm_frame_def Let_def ofdm_frame_trace_def setup_ofdm_carriers_def
      setup_carriers_loop_effects ofdm_preamble_loop_effects [OF n]
      ofdm_data_loop_effects [OF n] transmit_ofdm_symbol_effects [OF n]
      cleanup_carriers_effects)

text \<open>
  C3, as stated, fails: the preamble loop runs four times and sends \<open>0xAA, 0x55\<close> in
  each round, eight symbols in all. For an empty payload on one subcarrier the effects
  are not those of the frame \<open>0xAA, 0x55, 0xAA, 0x55, 0xFF, 0x00, 0xFF\<close>, and the
  controller releases the workers for eleven symbols, not seven.
\<close>

theorem ofdm_preamble_counterexample:
  "ofdm_effects (transmit_ofdm_frame []
      \<lparr>num_subcarriers = 1, base_freq = 8000, freq_spacing = 200, symbol_duration_ms = 100\<rparr>
      \<lparr>ofdm_running = 1, transmitting = [0, 0, 0, 0, 0, 0, 0, 0], ofdm_effects = []\<rparr>) \<noteq>
   ofdm_frame_trace
      \<lparr>num_subcarriers = 1, base_freq = 8000, freq_spacing = 200, symbol_duration_ms = 100\<rparr>
      ([0xAA, 0x55, 0xAA, 0x55] @ [] @ [0xFF, 0x00, 0xFF]) \<and>
   count_list (ofdm_effects (transmit_ofdm_frame []
      \<lparr>num_subcarriers = 1, base_freq = 8000, freq_spacing = 200, symbol_duration_ms = 100\<rparr>
      \<lparr>ofdm_running = 1, transmitting = [0, 0, 0, 0, 0, 0, 0, 0], ofdm_effects = []\<rparr>))
     Barrier_wait_sync = 11"
  by (simp add: transmit_ofdm_frame_effects ofdm_frame_trace_def ofdm_symbol_trace_def)

text \<open>
  C3, amended. With 1 to \<open>MAX_SUBCARRIERS\<close> subcarriers (what \<^verbatim>\<open>main\<close> admits),
  \<^verbatim>\<open>transmit_ofdm_frame\<close> does, in order and after creating the workers: the eight
  preamble symbols \<open>0xAA, 0x55\<close> repeated four times, then one symbol per payload
  byte, then the three end-marker symbols \<open>0xFF, 0x00, 0xFF\<close>, and nothing else (no
  CRC) before it cancels the workers. Each symbol keys subcarrier \<open>i\<close> on exactly when
  bit \<open>i\<close> of its byte is 1, sleeps for the symbol duration, keys every subcarrier
  off and sleeps for the guard interval.
\<close>

theorem transmit_ofdm_frame_symbols:
  assumes "1 \<le> num_subcarriers params" and "num_subcarriers params \<le> MAX_SUBCARRIERS"
  shows "ofdm_effects (transmit_ofdm_frame data params st) =
         ofdm_effects st @
         ofdm_frame_trace params
           ([0xAA, 0x55, 0xAA, 0x55, 0xAA, 0x55, 0xAA, 0x55] @ data @ [0xFF, 0x00, 0xFF])"
  using assms by (intro transmit_ofdm_frame_effects) (simp add: MAX_SUBCARRIERS_def)

theorem transmit_ofdm_frame_symbols_witness:
  "(1::int) \<le> num_subcarriers
      \<lparr>num_subcarriers = 2, base_freq = 8000, freq_spacing = 200, symbol_duration_ms = 100\<rparr> \<and>
   num_subcarriers
      \<lparr>num_subcarriers = 2, base_freq = 8000, freq_spacing = 200, symbol_duration_ms = 100\<rparr>
     \<le> MAX_SUBCARRIERS \<and>
   ofdm_effects (transmit_ofdm_frame [0x41]
      \<lparr>num_subcarriers = 2, base_freq = 8000, freq_spacing = 200, symbol_duration_ms = 100\<rparr>
      \<lparr>ofdm_running = 1, transmitting = [0, 0, 0, 0, 0, 0, 0, 0], ofdm_effects = []\<rparr>) =
   ofdm_frame_trace
      \<lparr>num_subcarriers = 2, base_freq = 8000, freq_spacing = 200, symbol_duration_ms = 100\<rparr>
      [0xAA, 0x55, 0xAA, 0x55, 0xAA, 0x55, 0xAA, 0x55, 0x41, 0xFF, 0x00, 0xFF] \<and>
   ofdm_symbol_trace
      \<lparr>num_subcarriers = 2, base_freq = 8000, freq_spacing = 200, symbol_duration_ms = 100\<rparr> 0x41 =
   [Set_transmitting 0 1, Set_transmitting 1 0, Barrier_wait_sync, Usleep 100000,
    Set_transmitting 0 0, Set_transmitting 1 0, Usleep 10000]"
proof -
  have h1: "(1::int) \<le> num_subcarriers
      \<lparr>num_subcarriers = 2, base_freq = 8000, freq_spacing = 200, symbol_duration_ms = 100\<rparr>"
    by simp
  have h2: "num_subcarriers
      \<lparr>num_subcarriers = 2, base_freq = 8000, freq_spacing = 200, symbol_duration_ms = 100\<rparr>
     \<le> MAX_SUBCARRIERS"
    by (simp add: MAX_SUBCARRIERS_def)
  have t: "ofdm_symbol_trace
      \<lparr>num_subcarriers = 2, base_freq = 8000, freq_spacing = 200, symbol_duration_ms = 100\<rparr> 0x41 =
    [Set_transmitting 0 1, Set_transmitting 1 0, Barrier_wait_sync, Usleep 100000,
     Set_transmitting 0 0, Set_transmitting 1 0, Usleep 10000]"
    by (simp add: ofdm_symbol_trace_def upto_from int32_def signed_take_bit_int_eq_self)
  from transmit_ofdm_frame_symbols [OF h1 h2, of "[0x41]"
      "\<lparr>ofdm_running = 1, transmitting = [0, 0, 0, 0, 0, 0, 0, 0], ofdm_effects = []\<rparr>"]
    h1 h2 t
  show ?thesis by simp
qed

section \<open>The tone generator and the FSK frame\<close>

lemma create_workers_eq:
  "create_workers i n st = st\<lparr>effects := effects st @ map Pthread_create [i..n - 1]\<rparr>"
proof (induction i n st rule: create_workers.induct)
  case (1 i n st)
  show ?case
  proof (cases "i < n")
    case True
    then have u: "[i..n - 1] = i # [i + 1..n - 1]" by (simp add: upto_from)
    have "create_workers i n st = create_workers (i + 1) n (do_effect (Pthread_create i) st)"
      by (subst create_workers.simps) (simp add: True)
    also have "\<dots> = (do_effect (Pthread_create i) st)\<lparr>effects :=
                 effects (do_effect (Pthread_create i) st) @ map Pthread_create [i + 1..n - 1]\<rparr>"
      by (rule "1.IH" [OF True])
    also have "\<dots> = st\<lparr>effects := effects st @ map Pthread_create [i..n - 1]\<rparr>"
      by (simp add: do_effect_def u)
    finally show ?thesis .
  next
    case False
    then show ?thesis by (subst create_workers.simps) simp
  qed
qed

lemma cancel_workers_eq:
  "cancel_workers i n st = st\<lparr>effects := effects st @ map Pthread_cancel [i..n - 1]\<rparr>"
proof (induction i n st rule: cancel_workers.induct)
  case (1 i n st)
  show ?case
  proof (cases "i < n")
    case True
    then have u: "[i..n - 1] = i # [i + 1..n - 1]" by (simp add: upto_from)
    have "cancel_workers i n st = cancel_workers (i + 1) n (do_effect (Pthread_cancel i) st)"
      by (subst cancel_workers.simps) (simp add: True)
    also have "\<dots> = (do_effect (Pthread_cancel i) st)\<lparr>effects :=
                 effects (do_effect (Pthread_cancel i) st) @ map Pthread_cancel [i + 1..n - 1]\<rparr>"
      by (rule "1.IH" [OF True])
    also have "\<dots> = st\<lparr>effects := effects st @ map Pthread_cancel [i..n - 1]\<rparr>"
      by (simp add: do_effect_def u)
    finally show ?thesis .
  next
    case False
    then show ?thesis by (subst cancel_workers.simps) simp
  qed
qed

lemma control_loop_stopped: "running st = 0 \<Longrightarrow> control_loop start d st = Some st"
  by (subst control_loop.simps) simp

lemma control_loop_elapsed:
  "running st \<noteq> 0 \<Longrightarrow> clock st = c # rest \<Longrightarrow> d \<le> c - start \<Longrightarrow>
   control_loop start d st = Some (st\<lparr>clock := rest\<rparr>)"
  by (subst control_loop.simps) simp

lemma drive_cycle_fields [simp]:
  "tone_calls (drive_cycle st) = tone_calls st"
  "clock (drive_cycle st) = clock st"
  "running (drive_cycle st) = running st"
  "cycle_nano (drive_cycle st) = cycle_nano st"
  "half_cycle_nano (drive_cycle st) = half_cycle_nano st"
  by (simp_all add: drive_cycle_def do_effect_def Let_def)

lemma control_loop_tone_calls:
  "control_loop start d st = Some st' \<Longrightarrow> tone_calls st' = tone_calls st"
proof (induction start d st rule: control_loop.induct)
  case (1 start d st)
  show ?case
  proof (cases "running st \<noteq> 0")
    case False
    with "1.prems" show ?thesis by (simp add: control_loop_stopped)
  next
    case True
    show ?thesis
    proof (cases "clock st")
      case Nil
      with True "1.prems" show ?thesis by (subst (asm) control_loop.simps) simp
    next
      case (Cons c rest)
      show ?thesis
      proof (cases "d \<le> c - start")
        case le: True
        with True Cons "1.prems" show ?thesis by (auto simp: control_loop_elapsed)
      next
        case gt: False
        from "1.prems" True Cons gt
        have "control_loop start d (drive_cycle (st\<lparr>clock := rest\<rparr>)) = Some st'"
          by (subst (asm) control_loop.simps) simp
        with "1.IH" [OF True Cons refl refl gt]
        show ?thesis by simp
      qed
    qed
  qed
qed

lemma control_loop_round:
  "running st \<noteq> 0 \<Longrightarrow> clock st = c # rest \<Longrightarrow> \<not> d \<le> c - start \<Longrightarrow>
   control_loop start d st = control_loop start d (drive_cycle (st\<lparr>clock := rest\<rparr>))"
  by (subst control_loop.simps) simp

lemma control_loop_reaches:
  "running st \<noteq> 0 \<Longrightarrow> k < length (clock st) \<Longrightarrow> d \<le> clock st ! k - start \<Longrightarrow>
   \<exists>st'. control_loop start d st = Some st' \<and>
         length (clock st) \<le> length (clock st') + k + 1"
proof (induction k arbitrary: st)
  case 0
  then obtain c rest where c: "clock st = c # rest" by (cases "clock st") auto
  with 0 show ?case by (simp add: control_loop_elapsed)
next
  case (Suc k)
  then obtain c rest where c: "clock st = c # rest" by (cases "clock st") auto
  show ?case
  proof (cases "d \<le> c - start")
    case True
    with Suc.prems c show ?thesis by (simp add: control_loop_elapsed)
  next
    case False
    let ?st = "drive_cycle (st\<lparr>clock := rest\<rparr>)"
    from Suc.prems c have "running ?st \<noteq> 0" "k < length (clock ?st)" "d \<le> clock ?st ! k - start"
      by simp_all
    from Suc.IH [OF this] obtain st' where
      "control_loop start d ?st = Some st'" "length (clock ?st) \<le> length (clock st') + k + 1"
      by blast
    with Suc.prems(1) c False show ?thesis
      by (simp add: control_loop_round)
  qed
qed

lemma generate_tone_invalid:
  "validate_frequency f = 0 \<Longrightarrow>
   generate_tone f d c st =
   Some (st\<lparr>tone_calls := tone_calls st @ [(f, d, c)],
            effects := effects st @
              [Fprintf_stderr ''Invalid frequency: %d Hz (valid range: %d-%d Hz)\<newline>'' [f, 20, 24000]]\<rparr>)"
  by (simp add: generate_tone_def do_effect_def MIN_FREQ_def MAX_FREQ_def)

lemma generate_tone_tone_calls:
  "generate_tone f d c st = Some st' \<Longrightarrow> tone_calls st' = tone_calls st @ [(f, d, c)]"
  by (auto simp: generate_tone_def Let_def do_effect_def create_workers_eq cancel_workers_eq
      split: if_splits list.splits option.splits dest!: control_loop_tone_calls)

lemma generate_tone_valid:
  assumes "validate_frequency f \<noteq> 0" and "clock st = c0 # cs"
  shows "\<exists>S. running S = running st \<and> clock S = cs \<and>
           generate_tone f d c st =
           map_option (\<lambda>st. do_effect Pthread_barrier_destroy_lo
                          (do_effect Pthread_barrier_destroy_hi
                             (cancel_workers 0 c (st\<lparr>running := 0\<rparr>))))
             (control_loop c0 (d * 1000000) S)"
proof -
  define S where "S =
    (create_workers 0 c
       (do_effect (Pthread_barrier_init_lo (c + 1))
          (do_effect (Pthread_barrier_init_hi (c + 1))
             (st\<lparr>tone_calls := tone_calls st @ [(f, d, c)]\<rparr>))
        \<lparr>cycle_nano := NANO_PER_SECOND div f,
          half_cycle_nano := NANO_PER_SECOND div f div 2\<rparr>))
    \<lparr>clock := cs\<rparr>"
  have "running S = running st" "clock S = cs"
    by (simp_all add: S_def create_workers_eq do_effect_def)
  moreover have "generate_tone f d c st =
           map_option (\<lambda>st. do_effect Pthread_barrier_destroy_lo
                          (do_effect Pthread_barrier_destroy_hi
                             (cancel_workers 0 c (st\<lparr>running := 0\<rparr>))))
             (control_loop c0 (d * 1000000) S)"
    using assms
    by (simp add: generate_tone_def Let_def S_def create_workers_eq do_effect_def
        split: option.split)
  ultimately show ?thesis by blast
qed

lemma generate_tone_step:
  assumes "clock_suffices d (Suc n) st"
  shows "\<exists>st'. generate_tone f d c st = Some st' \<and> clock_suffices d n st'"
proof (cases "validate_frequency f = 0")
  case True
  with assms show ?thesis
    by (fastforce simp: generate_tone_invalid clock_suffices_def)
next
  case valid: False
  show ?thesis
  proof (cases "running st = 0")
    case True
    with assms obtain c0 rest where c: "clock st = c0 # rest" and l: "n \<le> length rest"
      by (cases "clock st") (auto simp: clock_suffices_def)
    from generate_tone_valid [OF valid c, of d c] obtain S where
      S: "running S = running st" "clock S = rest" and
      g: "generate_tone f d c st =
           map_option (\<lambda>st. do_effect Pthread_barrier_destroy_lo
                          (do_effect Pthread_barrier_destroy_hi
                             (cancel_workers 0 c (st\<lparr>running := 0\<rparr>))))
             (control_loop c0 (d * 1000000) S)"
      by blast
    from S True have "control_loop c0 (d * 1000000) S = Some S"
      by (simp add: control_loop_stopped)
    with g S l show ?thesis
      by (simp add: cancel_workers_eq do_effect_def clock_suffices_def)
  next
    case False
    with assms obtain k where k: "Suc k < length (clock st)"
      "d * 1000000 \<le> clock st ! Suc k - clock st ! 0" "Suc n + k + 1 \<le> length (clock st)"
      by (auto simp: clock_suffices_def)
    then obtain c0 cs where c: "clock st = c0 # cs" by (cases "clock st") auto
    from generate_tone_valid [OF valid c, of d c] obtain S where
      S: "running S = running st" "clock S = cs" and
      g: "generate_tone f d c st =
           map_option (\<lambda>st. do_effect Pthread_barrier_destroy_lo
                          (do_effect Pthread_barrier_destroy_hi
                             (cancel_workers 0 c (st\<lparr>running := 0\<rparr>))))
             (control_loop c0 (d * 1000000) S)"
      by blast
    from k c S False have "running S \<noteq> 0" "k < length (clock S)"
      "d * 1000000 \<le> clock S ! k - c0"
      by simp_all
    from control_loop_reaches [OF this] obtain st2 where
      "control_loop c0 (d * 1000000) S = Some st2"
      "length (clock S) \<le> length (clock st2) + k + 1"
      by blast
    with g S k c show ?thesis
      by (simp add: cancel_workers_eq do_effect_def clock_suffices_def)
  qed
qed

lemma generate_tone_call:
  assumes "clock_suffices d (Suc n) st"
  shows "\<exists>st'. generate_tone f d c st = Some st' \<and>
           tone_calls st' = tone_calls st @ [(f, d, c)] \<and> clock_suffices d n st'"
  using generate_tone_step [OF assms] generate_tone_tone_calls by blast

lemma transmit_bit_fsk_call:
  assumes "clock_suffices (bit_duration_ms p) (Suc n) st"
  shows "\<exists>st'. transmit_bit_fsk (uint (drop_bit k (byte::uint8) AND 1)) p c st = Some st' \<and>
           tone_calls st' = tone_calls st @ [bit_call p c (bit byte k)] \<and>
           clock_suffices (bit_duration_ms p) n st'"
  unfolding transmit_bit_fsk_def Let_def low_bit_uint bit_call_def
  using generate_tone_call [OF assms, of "if bit byte k then freq_1 p else freq_0 p" c]
  by (cases "bit byte k") simp_all

lemma transmit_bits_from_calls:
  "- 1 \<le> i \<Longrightarrow> clock_suffices (bit_duration_ms p) (n + nat (i + 1)) st \<Longrightarrow>
   \<exists>st'. transmit_bits_from i byte p c st = Some st' \<and>
     tone_calls st' = tone_calls st @ map (\<lambda>k. bit_call p c (bit byte (nat k))) (rev [0..i]) \<and>
     clock_suffices (bit_duration_ms p) n st'"
proof (induction i byte p c st rule: transmit_bits_from.induct)
  case (1 i byte p c st)
  show ?case
  proof (cases "i \<ge> 0")
    case False
    with "1.prems" have "i = - 1" by simp
    with "1.prems" show ?thesis
      by (subst transmit_bits_from.simps) simp
  next
    case True
    then have "n + nat (i + 1) = Suc (n + nat i)" by simp
    with "1.prems" have "clock_suffices (bit_duration_ms p) (Suc (n + nat i)) st" by simp
    from transmit_bit_fsk_call [OF this, of "nat i" byte c]
    obtain st1 where
      s1: "transmit_bit_fsk (uint (drop_bit (nat i) byte AND 1)) p c st = Some st1" and
      t1: "tone_calls st1 = tone_calls st @ [bit_call p c (bit byte (nat i))]" and
      c1: "clock_suffices (bit_duration_ms p) (n + nat i) st1"
      by blast
    from True c1 have c1': "clock_suffices (bit_duration_ms p) (n + nat (i - 1 + 1)) st1"
      by simp
    from True have "- 1 \<le> i - 1" by simp
    from "1.IH" [OF True refl s1 this c1']
    obtain st' where
      s2: "transmit_bits_from (i - 1) byte p c st1 = Some st'" and
      t2: "tone_calls st' = tone_calls st1 @
             map (\<lambda>k. bit_call p c (bit byte (nat k))) (rev [0..i - 1])" and
      c2: "clock_suffices (bit_duration_ms p) n st'"
      by blast
    from True have u: "[0..i] = [0..i - 1] @ [i]" by (simp add: upto_rec2)
    have "transmit_bits_from i byte p c st = Some st'"
      by (subst transmit_bits_from.simps) (simp add: True s1 s2)
    with t1 t2 c2 u show ?thesis by simp
  qed
qed

lemma byte_calls:
  "clock_suffices (bit_duration_ms p) (n + 8) st \<Longrightarrow>
   \<exists>st'. transmit_bits_from 7 byte p c st = Some st' \<and>
     tone_calls st' = tone_calls st @
       map (\<lambda>k. bit_call p c (bit byte k)) [7, 6, 5, 4, 3, 2, 1, 0] \<and>
     clock_suffices (bit_duration_ms p) n st'"
  using transmit_bits_from_calls [of 7 p n st byte c]
  by (simp add: upto_rec1)

lemma transmit_payload_calls:
  "clock_suffices (bit_duration_ms p) (n + 8 * length data) st \<Longrightarrow>
   \<exists>st'. transmit_payload data p c st = Some st' \<and>
     tone_calls st' = tone_calls st @
       concat (map (\<lambda>byte. map (\<lambda>k. bit_call p c (bit byte k)) [7, 6, 5, 4, 3, 2, 1, 0]) data) \<and>
     clock_suffices (bit_duration_ms p) n st'"
proof (induction data arbitrary: st)
  case Nil
  then show ?case by simp
next
  case (Cons byte rest)
  have "n + 8 * length (byte # rest) = n + 8 * length rest + 8" by simp
  with Cons.prems have "clock_suffices (bit_duration_ms p) (n + 8 * length rest + 8) st"
    by (simp only:)
  from byte_calls [OF this, of byte c] obtain st1 where
    s1: "transmit_bits_from 7 byte p c st = Some st1" and
    t1: "tone_calls st1 = tone_calls st @
           map (\<lambda>k. bit_call p c (bit byte k)) [7, 6, 5, 4, 3, 2, 1, 0]" and
    c1: "clock_suffices (bit_duration_ms p) (n + 8 * length rest) st1"
    by blast
  from Cons.IH [OF c1] obtain st' where
    "transmit_payload rest p c st1 = Some st'"
    "tone_calls st' = tone_calls st1 @
       concat (map (\<lambda>byte. map (\<lambda>k. bit_call p c (bit byte k)) [7, 6, 5, 4, 3, 2, 1, 0]) rest)"
    "clock_suffices (bit_duration_ms p) n st'"
    by blast
  with s1 t1 show ?case by simp
qed

lemma transmit_data_fsk_calls:
  assumes "clock_suffices (bit_duration_ms p) (16 + 8 * length data) st"
  shows "\<exists>st'. transmit_data_fsk data p c st = Some st' \<and>
     tone_calls st' = tone_calls st @
       map (\<lambda>k. bit_call p c (bit (0xAA :: uint8) k)) [7, 6, 5, 4, 3, 2, 1, 0] @
       concat (map (\<lambda>byte. map (\<lambda>k. bit_call p c (bit byte k)) [7, 6, 5, 4, 3, 2, 1, 0]) data) @
       map (\<lambda>k. bit_call p c (bit (main_calculate_crc8 data) k)) [7, 6, 5, 4, 3, 2, 1, 0]"
proof -
  from assms have "clock_suffices (bit_duration_ms p) (8 + 8 * length data + 8) st" by simp
  from byte_calls [OF this, of "0xAA" c] obtain st1 where
    s1: "transmit_preamble p c st = Some st1" and
    t1: "tone_calls st1 = tone_calls st @
           map (\<lambda>k. bit_call p c (bit (0xAA :: uint8) k)) [7, 6, 5, 4, 3, 2, 1, 0]" and
    c1: "clock_suffices (bit_duration_ms p) (8 + 8 * length data) st1"
    unfolding transmit_preamble_def Let_def by blast
  from transmit_payload_calls [OF c1, of c] obtain st2 where
    s2: "transmit_payload data p c st1 = Some st2" and
    t2: "tone_calls st2 = tone_calls st1 @
       concat (map (\<lambda>byte. map (\<lambda>k. bit_call p c (bit byte k)) [7, 6, 5, 4, 3, 2, 1, 0]) data)" and
    c2: "clock_suffices (bit_duration_ms p) 8 st2"
    by blast
  from c2 have "clock_suffices (bit_duration_ms p) (0 + 8) st2" by simp
  from byte_calls [OF this, of "main_calculate_crc8 data" c] obtain st3 where
    s3: "transmit_bits_from 7 (main_calculate_crc8 data) p c st2 = Some st3" and
    t3: "tone_calls st3 = tone_calls st2 @
           map (\<lambda>k. bit_call p c (bit (main_calculate_crc8 data) k)) [7, 6, 5, 4, 3, 2, 1, 0]"
    by blast
  have "transmit_data_fsk data p c st = Some st3"
    by (simp add: transmit_data_fsk_def s1 s2 s3 Let_def)
  with t1 t2 t3 show ?thesis by simp
qed

lemma clock_suffices_start:
  assumes "Suc k < length (clock st)"
    and "d * 1000000 \<le> clock st ! Suc k - clock st ! 0"
    and "n + k + 1 \<le> length (clock st)"
  shows "clock_suffices d n st"
proof -
  from assms have "k < length (clock st) \<and> Suc k < length (clock st) \<and>
      d * 1000000 \<le> clock st ! Suc k - clock st ! 0 \<and> n + k + 1 \<le> length (clock st)"
    by simp
  then have "\<exists>k < length (clock st). Suc k < length (clock st) \<and>
      d * 1000000 \<le> clock st ! Suc k - clock st ! 0 \<and> n + k + 1 \<le> length (clock st)"
    by blast
  with assms(3) show ?thesis by (simp add: clock_suffices_def)
qed

lemma transmit_bits_from_tone_calls:
  "transmit_bits_from i byte p c st = Some st' \<Longrightarrow> - 1 \<le> i \<Longrightarrow>
   tone_calls st' = tone_calls st @ map (\<lambda>k. bit_call p c (bit byte (nat k))) (rev [0..i])"
proof (induction i byte p c st rule: transmit_bits_from.induct)
  case (1 i byte p c st)
  show ?case
  proof (cases "i \<ge> 0")
    case False
    with "1.prems" have "i = - 1" by simp
    with "1.prems" show ?thesis
      by (subst (asm) transmit_bits_from.simps) simp
  next
    case True
    from "1.prems"(1) True obtain st1 where
      s1: "transmit_bit_fsk (uint (drop_bit (nat i) byte AND 1)) p c st = Some st1" and
      s2: "transmit_bits_from (i - 1) byte p c st1 = Some st'"
      by (subst (asm) transmit_bits_from.simps) (simp split: option.splits)
    from s1 have t1: "tone_calls st1 = tone_calls st @ [bit_call p c (bit byte (nat i))]"
      unfolding transmit_bit_fsk_def Let_def low_bit_uint bit_call_def
      by (cases "bit byte (nat i)") (simp_all add: generate_tone_tone_calls)
    from True have "- 1 \<le> i - 1" by simp
    from "1.IH" [OF True refl s1 s2 this]
    have t2: "tone_calls st' = tone_calls st1 @
             map (\<lambda>k. bit_call p c (bit byte (nat k))) (rev [0..i - 1])" .
    from True have u: "[0..i] = [0..i - 1] @ [i]" by (simp add: upto_rec2)
    from t1 t2 u show ?thesis by simp
  qed
qed

lemma byte_tone_calls:
  "transmit_bits_from 7 byte p c st = Some st' \<Longrightarrow>
   tone_calls st' = tone_calls st @
     map (\<lambda>k. bit_call p c (bit byte k)) [7, 6, 5, 4, 3, 2, 1, 0]"
  using transmit_bits_from_tone_calls [of 7 byte p c st st']
  by (simp add: upto_rec1)

lemma transmit_payload_tone_calls:
  "transmit_payload data p c st = Some st' \<Longrightarrow>
   tone_calls st' = tone_calls st @
     concat (map (\<lambda>byte. map (\<lambda>k. bit_call p c (bit byte k)) [7, 6, 5, 4, 3, 2, 1, 0]) data)"
proof (induction data arbitrary: st)
  case Nil
  then show ?case by simp
next
  case (Cons byte rest)
  from Cons.prems obtain st1 where
    s1: "transmit_bits_from 7 byte p c st = Some st1" and
    s2: "transmit_payload rest p c st1 = Some st'"
    by (simp split: option.splits)
  from byte_tone_calls [OF s1] Cons.IH [OF s2] show ?case by simp
qed

lemma transmit_data_fsk_tone_calls:
  assumes "transmit_data_fsk data p c st = Some st'"
  shows "tone_calls st' = tone_calls st @
       map (\<lambda>k. bit_call p c (bit (0xAA :: uint8) k)) [7, 6, 5, 4, 3, 2, 1, 0] @
       concat (map (\<lambda>byte. map (\<lambda>k. bit_call p c (bit byte k)) [7, 6, 5, 4, 3, 2, 1, 0]) data) @
       map (\<lambda>k. bit_call p c (bit (main_calculate_crc8 data) k)) [7, 6, 5, 4, 3, 2, 1, 0]"
proof -
  from assms obtain st1 st2 where
    s1: "transmit_bits_from 7 0xAA p c st = Some st1" and
    s2: "transmit_payload data p c st1 = Some st2" and
    s3: "transmit_bits_from 7 (main_calculate_crc8 data) p c st2 = Some st'"
    by (simp add: transmit_data_fsk_def transmit_preamble_def Let_def split: option.splits)
  from byte_tone_calls [OF s1] transmit_payload_tone_calls [OF s2] byte_tone_calls [OF s3]
  show ?thesis by simp
qed

lemma transmit_data_fsk_returns:
  assumes "clock_suffices (bit_duration_ms p) (16 + 8 * length data) st"
  shows "transmit_data_fsk data p c st \<noteq> None"
  using transmit_data_fsk_calls [OF assms, of c] by auto

lemma crc8_HI: "main_calculate_crc8 [0x48, 0x49] = 0x0B"
  by code_simp

text \<open>
  C1. For the payload \<open>"HI"\<close> (bytes 0x48, 0x49), every run of \<^verbatim>\<open>transmit_data_fsk\<close>
  that returns has called \<^verbatim>\<open>generate_tone\<close> exactly 32 times, in this order: for
  the bits 1,0,1,0,1,0,1,0 of the preamble 0xAA, for the bits of 0x48 and of 0x49, and
  for the bits of the CRC-8 of the payload (0x0B), each byte most significant bit
  first, each call with \<^verbatim>\<open>freq_1\<close> for a 1 bit and \<^verbatim>\<open>freq_0\<close> for a 0 bit. And
  the run does return when the clock reaches a bit duration past its first reading at
  some reading \<open>k + 1\<close> and 31 more readings follow.
\<close>

theorem transmit_data_fsk_HI:
  "(transmit_data_fsk [0x48, 0x49] p c st = Some st' \<longrightarrow>
      tone_calls st' = tone_calls st @ map (bit_call p c)
        ([True, False, True, False, True, False, True, False] @
         [False, True, False, False, True, False, False, False] @
         [False, True, False, False, True, False, False, True] @
         [False, False, False, False, True, False, True, True])) \<and>
   (Suc k < length (clock st) \<and>
    bit_duration_ms p * 1000000 \<le> clock st ! Suc k - clock st ! 0 \<and>
    k + 33 \<le> length (clock st) \<longrightarrow>
      transmit_data_fsk [0x48, 0x49] p c st \<noteq> None) \<and>
   main_calculate_crc8 [0x48, 0x49] = 0x0B \<and>
   map (bit (0x0B :: uint8)) [7, 6, 5, 4, 3, 2, 1, 0] =
     [False, False, False, False, True, False, True, True]"
proof -
  have a: "tone_calls st' = tone_calls st @ map (bit_call p c)
        ([True, False, True, False, True, False, True, False] @
         [False, True, False, False, True, False, False, False] @
         [False, True, False, False, True, False, False, True] @
         [False, False, False, False, True, False, True, True])"
    if "transmit_data_fsk [0x48, 0x49] p c st = Some st'"
    using transmit_data_fsk_tone_calls [OF that] unfolding crc8_HI by simp
  have b: "transmit_data_fsk [0x48, 0x49] p c st \<noteq> None"
    if "Suc k < length (clock st)"
      "bit_duration_ms p * 1000000 \<le> clock st ! Suc k - clock st ! 0"
      "k + 33 \<le> length (clock st)"
  proof -
    from that have "clock_suffices (bit_duration_ms p) (16 + 8 * length [0x48, 0x49 :: uint8]) st"
      by (intro clock_suffices_start [of k]) simp_all
    then show ?thesis by (rule transmit_data_fsk_returns)
  qed
  have d: "map (bit (0x0B :: uint8)) [7, 6, 5, 4, 3, 2, 1, 0] =
     [False, False, False, False, True, False, True, True]"
    by simp
  from a b crc8_HI d show ?thesis by blast
qed

theorem transmit_data_fsk_HI_witness:
  "Suc 2 < length (clock (initial_state ([0, 20000000, 40000000, 60000000] @ replicate 31 60000000))) \<and>
   bit_duration_ms \<lparr>freq_0 = 8000, freq_1 = 8500, bit_duration_ms = 50\<rparr> * 1000000
     \<le> clock (initial_state ([0, 20000000, 40000000, 60000000] @ replicate 31 60000000)) ! Suc 2 -
        clock (initial_state ([0, 20000000, 40000000, 60000000] @ replicate 31 60000000)) ! 0 \<and>
   2 + 33 \<le> length (clock (initial_state ([0, 20000000, 40000000, 60000000] @ replicate 31 60000000))) \<and>
   map_option tone_calls
     (transmit_data_fsk [0x48, 0x49] \<lparr>freq_0 = 8000, freq_1 = 8500, bit_duration_ms = 50\<rparr> 4
        (initial_state ([0, 20000000, 40000000, 60000000] @ replicate 31 60000000))) =
   Some [(8500, 50, 4), (8000, 50, 4), (8500, 50, 4), (8000, 50, 4),
         (8500, 50, 4), (8000, 50, 4), (8500, 50, 4), (8000, 50, 4),
         (8000, 50, 4), (8500, 50, 4), (8000, 50, 4), (8000, 50, 4),
         (8500, 50, 4), (8000, 50, 4), (8000, 50, 4), (8000, 50, 4),
         (8000, 50, 4), (8500, 50, 4), (8000, 50, 4), (8000, 50, 4),
         (8500, 50, 4), (8000, 50, 4), (8000, 50, 4), (8500, 50, 4),
         (8000, 50, 4), (8000, 50, 4), (8000, 50, 4), (8000, 50, 4),
         (8500, 50, 4), (8000, 50, 4), (8500, 50, 4), (8500, 50, 4)]"
proof -
  let ?st = "initial_state ([0, 20000000, 40000000, 60000000] @ replicate 31 60000000)"
  let ?p = "\<lparr>freq_0 = 8000, freq_1 = 8500, bit_duration_ms = 50\<rparr>"
  have h: "Suc 2 < length (clock ?st) \<and>
     bit_duration_ms ?p * 1000000 \<le> clock ?st ! Suc 2 - clock ?st ! 0 \<and>
     2 + 33 \<le> length (clock ?st)"
    by (simp add: initial_state_def)
  with transmit_data_fsk_HI [of ?p 4 ?st _ 2]
  obtain st' where s: "transmit_data_fsk [0x48, 0x49] ?p 4 ?st = Some st'"
    by blast
  with transmit_data_fsk_HI [of ?p 4 ?st st' 2]
  have "tone_calls st' = tone_calls ?st @ map (bit_call ?p 4)
        ([True, False, True, False, True, False, True, False] @
         [False, True, False, False, True, False, False, False] @
         [False, True, False, False, True, False, False, True] @
         [False, False, False, False, True, False, True, True])"
    by blast
  then have "tone_calls st' =
     [(8500, 50, 4), (8000, 50, 4), (8500, 50, 4), (8000, 50, 4),
      (8500, 50, 4), (8000, 50, 4), (8500, 50, 4), (8000, 50, 4),
      (8000, 50, 4), (8500, 50, 4), (8000, 50, 4), (8000, 50, 4),
      (8500, 50, 4), (8000, 50, 4), (8000, 50, 4), (8000, 50, 4),
      (8000, 50, 4), (8500, 50, 4), (8000, 50, 4), (8000, 50, 4),
      (8500, 50, 4), (8000, 50, 4), (8000, 50, 4), (8500, 50, 4),
      (8000, 50, 4), (8000, 50, 4), (8000, 50, 4), (8000, 50, 4),
      (8500, 50, 4), (8000, 50, 4), (8500, 50, 4), (8500, 50, 4)]"
    by (simp add: bit_call_def initial_state_def)
  with s h show ?thesis by simp
qed

lemma main_rejects_cores_tone:
  assumes "length argv = 5" and "argv ! 1 = ''tone''"
    and "atoi (argv ! 4) < 1 \<or> atoi (argv ! 4) > MAX_CORES"
  shows "transmitter_main argv st =
         Some (1, st\<lparr>effects := effects st @
                    [Fprintf_stderr ''Error: Number of cores must be between 1 and %d\<newline>''
                       [32]]\<rparr>)"
  using assms by (auto simp: transmitter_main_def Let_def do_effect_def MAX_CORES_def)

lemma main_rejects_cores_fsk:
  assumes "length argv = 7" and "argv ! 1 = ''fsk''"
    and "atoi (argv ! 5) < 1 \<or> atoi (argv ! 5) > MAX_CORES"
  shows "transmitter_main argv st =
         Some (1, st\<lparr>effects := effects st @
           [if validate_frequency (atoi (argv ! 2)) = 0 \<or> validate_frequency (atoi (argv ! 3)) = 0
            then Fprintf_stderr ''Error: Frequencies must be between %d and %d Hz\<newline>'' [20, 24000]
            else Fprintf_stderr ''Error: Number of cores must be between 1 and %d\<newline>'' [32]]\<rparr>)"
  using assms
  by (auto simp: transmitter_main_def Let_def do_effect_def MAX_CORES_def MIN_FREQ_def MAX_FREQ_def)

text \<open>
  C4, as stated, fails for the unit count: \<^verbatim>\<open>generate_tone\<close> checks the frequency
  only. With the valid frequency 440 and 33 units, one more than \<open>MAX_CORES\<close>, it
  initialises both barriers for 34 parties, writes the timing state and creates 33
  workers.
\<close>

theorem generate_tone_unit_count_counterexample:
  "validate_frequency 440 = 1 \<and> \<not> (33 \<le> MAX_CORES) \<and>
   map_option effects (generate_tone 440 0 33 (initial_state [0, 0])) =
     Some ([Pthread_barrier_init_hi 34, Pthread_barrier_init_lo 34] @
           map Pthread_create [0..32] @ map Pthread_cancel [0..32] @
           [Pthread_barrier_destroy_hi, Pthread_barrier_destroy_lo]) \<and>
   map_option cycle_nano (generate_tone 440 0 33 (initial_state [0, 0])) = Some 2272727 \<and>
   map_option half_cycle_nano (generate_tone 440 0 33 (initial_state [0, 0])) = Some 1136363"
  by (simp add: generate_tone_def validate_frequency_def MIN_FREQ_def MAX_FREQ_def MAX_CORES_def
      NANO_PER_SECOND_def initial_state_def Let_def do_effect_def create_workers_eq
      cancel_workers_eq control_loop_elapsed)

text \<open>
  C4, amended. For every call of \<^verbatim>\<open>generate_tone\<close> whose frequency is outside
  [20, 24000], whatever the unit count, the call reports the invalid frequency on
  stderr and returns with no other effect: no barrier is initialised, no worker is
  created, and the timing state, \<^verbatim>\<open>running\<close>, \<^verbatim>\<open>LO\<close> and the clock are as before
  (the call log of the model records the call). \<^verbatim>\<open>generate_tone\<close> does not check
  the unit count; it is \<^verbatim>\<open>main\<close> that rejects a unit count outside
  [1, \<open>MAX_CORES\<close>], in the tone mode and in the fsk mode, before any call of
  \<^verbatim>\<open>generate_tone\<close>: it writes one error message to stderr and exits with code 1,
  the state otherwise unchanged.
\<close>

theorem generate_tone_rejects_frequency:
  "(freq < 20 \<or> freq > 24000 \<longrightarrow>
      generate_tone freq duration_ms num_cores st =
        Some (st\<lparr>tone_calls := tone_calls st @ [(freq, duration_ms, num_cores)],
                 effects := effects st @
                   [Fprintf_stderr ''Invalid frequency: %d Hz (valid range: %d-%d Hz)\<newline>''
                      [freq, 20, 24000]]\<rparr>)) \<and>
   (length argv = 5 \<and> argv ! 1 = ''tone'' \<and>
    (atoi (argv ! 4) < 1 \<or> atoi (argv ! 4) > MAX_CORES) \<longrightarrow>
      transmitter_main argv st =
        Some (1, st\<lparr>effects := effects st @
                   [Fprintf_stderr ''Error: Number of cores must be between 1 and %d\<newline>''
                      [32]]\<rparr>)) \<and>
   (length argv' = 7 \<and> argv' ! 1 = ''fsk'' \<and>
    (atoi (argv' ! 5) < 1 \<or> atoi (argv' ! 5) > MAX_CORES) \<longrightarrow>
      transmitter_main argv' st =
        Some (1, st\<lparr>effects := effects st @
          [if validate_frequency (atoi (argv' ! 2)) = 0 \<or> validate_frequency (atoi (argv' ! 3)) = 0
           then Fprintf_stderr ''Error: Frequencies must be between %d and %d Hz\<newline>'' [20, 24000]
           else Fprintf_stderr ''Error: Number of cores must be between 1 and %d\<newline>'' [32]]\<rparr>))"
proof -
  have a: "generate_tone freq duration_ms num_cores st =
        Some (st\<lparr>tone_calls := tone_calls st @ [(freq, duration_ms, num_cores)],
                 effects := effects st @
                   [Fprintf_stderr ''Invalid frequency: %d Hz (valid range: %d-%d Hz)\<newline>''
                      [freq, 20, 24000]]\<rparr>)"
    if "freq < 20 \<or> freq > 24000"
    using that
    by (intro generate_tone_invalid) (auto simp: validate_frequency_def MIN_FREQ_def MAX_FREQ_def)
  from a main_rejects_cores_tone [of argv st] main_rejects_cores_fsk [of argv' st]
  show ?thesis by blast
qed

theorem generate_tone_rejects_frequency_witness:
  "((10::int) < 20 \<or> (10::int) > 24000) \<and>
   generate_tone 10 1000 4 (initial_state []) =
     Some \<lparr>running = 1, LO = 0, cycle_nano = 0, half_cycle_nano = 0, clock = [],
            effects = [Fprintf_stderr ''Invalid frequency: %d Hz (valid range: %d-%d Hz)\<newline>''
                         [10, 20, 24000]],
            tone_calls = [(10, 1000, 4)]\<rparr> \<and>
   length [''prog'', ''tone'', ''440'', ''1000'', ''33''] = 5 \<and>
   [''prog'', ''tone'', ''440'', ''1000'', ''33''] ! 1 = ''tone'' \<and>
   atoi ([''prog'', ''tone'', ''440'', ''1000'', ''33''] ! 4) = 33 \<and> 33 > MAX_CORES \<and>
   transmitter_main [''prog'', ''tone'', ''440'', ''1000'', ''33''] (initial_state []) =
     Some (1, \<lparr>running = 1, LO = 0, cycle_nano = 0, half_cycle_nano = 0, clock = [],
            effects = [Fprintf_stderr ''Error: Number of cores must be between 1 and %d\<newline>'' [32]],
            tone_calls = []\<rparr>) \<and>
   length [''prog'', ''fsk'', ''8000'', ''8500'', ''50'', ''0'', ''HI''] = 7 \<and>
   [''prog'', ''fsk'', ''8000'', ''8500'', ''50'', ''0'', ''HI''] ! 1 = ''fsk'' \<and>
   atoi ([''prog'', ''fsk'', ''8000'', ''8500'', ''50'', ''0'', ''HI''] ! 5) = 0 \<and>
   transmitter_main [''prog'', ''fsk'', ''8000'', ''8500'', ''50'', ''0'', ''HI''] (initial_state []) =
     Some (1, \<lparr>running = 1, LO = 0, cycle_nano = 0, half_cycle_nano = 0, clock = [],
            effects = [Fprintf_stderr ''Error: Number of cores must be between 1 and %d\<newline>'' [32]],
            tone_calls = []\<rparr>)"
proof -
  let ?t = "[''prog'', ''tone'', ''440'', ''1000'', ''33'']"
  let ?f = "[''prog'', ''fsk'', ''8000'', ''8500'', ''50'', ''0'', ''HI'']"
  have h: "(10::int) < 20 \<or> (10::int) > 24000" by simp
  have t: "length ?t = 5" "?t ! 1 = ''tone''" "atoi (?t ! 4) = 33" "33 > MAX_CORES"
    by (simp_all add: atoi_def is_space_def is_digit_def MAX_CORES_def)
  have f: "length ?f = 7" "?f ! 1 = ''fsk''" "atoi (?f ! 5) = 0"
    "atoi (?f ! 2) = 8000" "atoi (?f ! 3) = 8500"
    by (simp_all add: atoi_def is_space_def is_digit_def)
  have v: "validate_frequency 8000 = 1" "validate_frequency 8500 = 1"
    by (simp_all add: validate_frequency_def MIN_FREQ_def MAX_FREQ_def)
  from generate_tone_rejects_frequency [of 10 1000 4 "initial_state []" ?t ?f] h t f
  have "generate_tone 10 1000 4 (initial_state []) =
        Some ((initial_state [])\<lparr>tone_calls := tone_calls (initial_state []) @ [(10, 1000, 4)],
                 effects := effects (initial_state []) @
                   [Fprintf_stderr ''Invalid frequency: %d Hz (valid range: %d-%d Hz)\<newline>''
                      [10, 20, 24000]]\<rparr>)"
    and "transmitter_main ?t (initial_state []) =
        Some (1, (initial_state [])\<lparr>effects := effects (initial_state []) @
                   [Fprintf_stderr ''Error: Number of cores must be between 1 and %d\<newline>''
                      [32]]\<rparr>)"
    and "transmitter_main ?f (initial_state []) =
        Some (1, (initial_state [])\<lparr>effects := effects (initial_state []) @
          [if validate_frequency (atoi (?f ! 2)) = 0 \<or> validate_frequency (atoi (?f ! 3)) = 0
           then Fprintf_stderr ''Error: Frequencies must be between %d and %d Hz\<newline>'' [20, 24000]
           else Fprintf_stderr ''Error: Number of cores must be between 1 and %d\<newline>'' [32]]\<rparr>)"
    by simp_all
  with h t f v show ?thesis
    by (simp add: initial_state_def)
qed

text \<open>
  C5, as stated, fails: with duration 0 and the valid frequency 440 on one unit,
  \<^verbatim>\<open>generate_tone\<close> initialises the barriers, creates worker 0 and cancels it.
\<close>

theorem generate_tone_zero_duration_counterexample:
  "validate_frequency 440 = 1 \<and>
   generate_tone 440 0 1 (initial_state [0, 0]) =
     Some \<lparr>running = 0, LO = 0, cycle_nano = 2272727, half_cycle_nano = 1136363, clock = [],
            effects = [Pthread_barrier_init_hi 2, Pthread_barrier_init_lo 2, Pthread_create 0,
                       Pthread_cancel 0, Pthread_barrier_destroy_hi, Pthread_barrier_destroy_lo],
            tone_calls = [(440, 0, 1)]\<rparr>"
  by (simp add: generate_tone_def validate_frequency_def MIN_FREQ_def MAX_FREQ_def
      NANO_PER_SECOND_def initial_state_def Let_def do_effect_def create_workers.simps
      cancel_workers.simps control_loop.simps)

text \<open>
  C5, amended. A call of \<^verbatim>\<open>generate_tone\<close> with duration 0 ms and a valid frequency
  returns without driving any half cycle (no barrier wait and no sleep), given a clock
  that does not run backwards; it does initialise the two barriers and it creates and
  then cancels \<open>num_cores\<close> workers.
\<close>

theorem generate_tone_zero_duration:
  assumes "20 \<le> freq" and "freq \<le> 24000"
    and "clock st = c0 # c1 # rest" and "c0 \<le> c1"
  shows "map_option effects (generate_tone freq 0 num_cores st) =
         Some (effects st @
               [Pthread_barrier_init_hi (num_cores + 1), Pthread_barrier_init_lo (num_cores + 1)] @
               map Pthread_create [0..num_cores - 1] @
               map Pthread_cancel [0..num_cores - 1] @
               [Pthread_barrier_destroy_hi, Pthread_barrier_destroy_lo])"
proof (cases "running st = 0")
  case True
  with assms show ?thesis
    by (simp add: generate_tone_def validate_frequency_def MIN_FREQ_def MAX_FREQ_def
        Let_def do_effect_def create_workers_eq cancel_workers_eq control_loop_stopped)
next
  case False
  with assms show ?thesis
    by (simp add: generate_tone_def validate_frequency_def MIN_FREQ_def MAX_FREQ_def
        Let_def do_effect_def create_workers_eq cancel_workers_eq control_loop_elapsed)
qed

theorem generate_tone_zero_duration_witness:
  "(20::int) \<le> 440 \<and> (440::int) \<le> 24000 \<and>
   clock (initial_state [5, 5, 7]) = 5 # 5 # [7] \<and> (5::int) \<le> 5 \<and>
   map_option effects (generate_tone 440 0 2 (initial_state [5, 5, 7])) =
     Some [Pthread_barrier_init_hi 3, Pthread_barrier_init_lo 3,
           Pthread_create 0, Pthread_create 1, Pthread_cancel 0, Pthread_cancel 1,
           Pthread_barrier_destroy_hi, Pthread_barrier_destroy_lo]"
proof -
  have h1: "(20::int) \<le> 440" and h2: "(440::int) \<le> 24000" and h4: "(5::int) \<le> 5"
    by simp_all
  have h3: "clock (initial_state [5, 5, 7]) = 5 # 5 # [7]"
    by (simp add: initial_state_def)
  from generate_tone_zero_duration [OF h1 h2 h3 h4, of 2] h1 h2 h3 h4
  show ?thesis by (simp add: initial_state_def upto_from)
qed

text \<open>
  C9 does not hold for the tone mode: with the frequency 10, outside [20, 24000],
  \<^verbatim>\<open>main\<close> calls \<^verbatim>\<open>generate_tone\<close>, which reports the invalid frequency and
  returns, and \<^verbatim>\<open>main\<close> then exits with code 0. The FSK mode checks the
  frequencies itself and exits with code 1.
\<close>

theorem tone_mode_bad_frequency_exit_code:
  "transmitter_main [''prog'', ''tone'', ''10'', ''1000'', ''4''] st =
   Some (0, st\<lparr>tone_calls := tone_calls st @ [(10, 1000, 4)],
               effects := effects st @
                 [Fprintf_stderr ''Invalid frequency: %d Hz (valid range: %d-%d Hz)\<newline>''
                    [10, 20, 24000]]\<rparr>)"
  by (simp add: transmitter_main_def atoi_def is_space_def is_digit_def MAX_CORES_def
      generate_tone_invalid validate_frequency_def MIN_FREQ_def MAX_FREQ_def Let_def)

section \<open>CRC-8: single-bit errors\<close>

lemma crc8_shift_low_bit: "bit (crc8_shift c) 0 = (c AND 0x80 \<noteq> 0)"
  by (simp add: crc8_shift_def CRC8_POLYNOMIAL_def bit_0 even_xor_iff)

lemma xor_cancel_left: "(c::uint8) XOR a = c XOR b \<Longrightarrow> a = b"
  by (metis bit.xor_left_self)

lemma xor_cancel_right: "(a::uint8) XOR c = b XOR c \<Longrightarrow> a = b"
  by (metis bit.xor_left_self xor.commute)

lemma crc8_shift_inj:
  assumes "crc8_shift a = crc8_shift b"
  shows "a = b"
proof -
  from assms have "bit (crc8_shift a) 0 = bit (crc8_shift b) 0" by simp
  then have m: "(a AND 0x80 \<noteq> 0) = (b AND 0x80 \<noteq> 0)"
    by (simp only: crc8_shift_low_bit)
  with assms have p: "push_bit 1 a = push_bit 1 b"
    by (auto simp: crc8_shift_def split: if_splits dest: xor_cancel_right)
  have m7: "bit a 7 = bit b 7"
  proof -
    have e: "(0x80::uint8) = 2 ^ 7" by simp
    from m show ?thesis unfolding e and_exp_eq_0_iff_not_bit by simp
  qed
  show ?thesis
  proof (rule bit_word_eqI)
    fix n assume "n < LENGTH(8)"
    then have n: "n < 8" by simp
    show "bit a n = bit b n"
    proof (cases "n = 7")
      case True
      with m7 show ?thesis by simp
    next
      case False
      with n have "Suc n < 8" by simp
      then have s: "bit (push_bit 1 w) (Suc n) = bit w n" for w :: uint8
        by (simp only: bit_push_bit_iff possible_bit_word) simp
      from p have "bit (push_bit 1 a) (Suc n) = bit (push_bit 1 b) (Suc n)" by (simp only:)
      then show ?thesis by (simp only: s)
    qed
  qed
qed

lemma crc8_inner_inj: "crc8_inner j a = crc8_inner j b \<Longrightarrow> a = b"
proof (induction j a arbitrary: b rule: crc8_inner.induct)
  case (1 j crc)
  show ?case
  proof (cases "j < 8")
    case True
    from "1.prems" True have "crc8_inner (j + 1) (crc8_shift crc) = crc8_inner (j + 1) (crc8_shift b)"
      by (subst (asm) crc8_inner.simps, subst (asm) (2) crc8_inner.simps) simp
    from "1.IH" [OF True this] show ?thesis by (rule crc8_shift_inj)
  next
    case False
    with "1.prems" show ?thesis
      by (subst (asm) crc8_inner.simps, subst (asm) (2) crc8_inner.simps) simp
  qed
qed

lemma crc8_outer_inj: "crc8_outer data a = crc8_outer data b \<Longrightarrow> a = b"
proof (induction data arbitrary: a b)
  case Nil
  then show ?case by simp
next
  case (Cons x xs)
  from Cons.prems have "crc8_inner 0 (a XOR x) = crc8_inner 0 (b XOR x)"
    by (auto dest: Cons.IH)
  then have "a XOR x = b XOR x" by (rule crc8_inner_inj)
  then show ?case by (rule xor_cancel_right)
qed

lemma single_bit_nonzero: "k < 8 \<Longrightarrow> push_bit k (1::uint8) \<noteq> 0"
proof -
  assume "k < 8"
  then have b: "bit (push_bit k (1::uint8)) k" by (simp add: bit_simps)
  show ?thesis
  proof
    assume "push_bit k (1::uint8) = 0"
    then have "bit (push_bit k (1::uint8)) k = bit (0::uint8) k" by (simp only:)
    with b show False by simp
  qed
qed

lemma crc8_outer_flip:
  "i < length data \<Longrightarrow> k < 8 \<Longrightarrow>
   crc8_outer (data[i := data ! i XOR push_bit k 1]) c \<noteq> crc8_outer data c"
proof (induction data arbitrary: i c)
  case Nil
  then show ?case by simp
next
  case (Cons x xs)
  show ?case
  proof (cases i)
    case 0
    have "c XOR (x XOR push_bit k 1) \<noteq> c XOR x"
    proof
      assume "c XOR (x XOR push_bit k 1) = c XOR x"
      then have "x XOR push_bit k 1 = x" by (rule xor_cancel_left)
      then have "x XOR push_bit k 1 = x XOR 0" by simp
      then have "push_bit k (1::uint8) = 0" by (rule xor_cancel_left)
      with single_bit_nonzero [OF Cons.prems(2)] show False by simp
    qed
    then have "crc8_inner 0 (c XOR (x XOR push_bit k 1)) \<noteq> crc8_inner 0 (c XOR x)"
      by (auto dest: crc8_inner_inj)
    then have "crc8_outer xs (crc8_inner 0 (c XOR (x XOR push_bit k 1))) \<noteq>
               crc8_outer xs (crc8_inner 0 (c XOR x))"
      by (auto dest: crc8_outer_inj)
    with 0 show ?thesis by simp
  next
    case (Suc j)
    with Cons.prems have "j < length xs" by simp
    from Cons.IH [OF this Cons.prems(2)] Suc show ?thesis by simp
  qed
qed

text \<open>
  C6. For every byte sequence and every single bit of it (bit \<open>k\<close> of byte \<open>i\<close>),
  the CRC-8 of the sequence with that bit flipped differs from the CRC-8 of the
  original, so \<^verbatim>\<open>verify_crc8\<close> of the modified data against the original CRC
  returns 0.
\<close>

theorem crc8_detects_single_bit_flip:
  assumes "i < length data" and "k < 8"
  shows "calculate_crc8 (data[i := data ! i XOR push_bit k 1]) \<noteq> calculate_crc8 data \<and>
         verify_crc8 (data[i := data ! i XOR push_bit k 1]) (calculate_crc8 data) = 0"
  using crc8_outer_flip [OF assms, of 0]
  by (simp add: calculate_crc8_def verify_crc8_def)

theorem crc8_detects_single_bit_flip_witness:
  "(1::nat) < length [0x48, 0x49 :: uint8] \<and> (3::nat) < 8 \<and>
   [0x48, 0x49 :: uint8][1 := [0x48, 0x49] ! 1 XOR push_bit 3 1] = [0x48, 0x41] \<and>
   calculate_crc8 [0x48, 0x41] \<noteq> calculate_crc8 [0x48, 0x49] \<and>
   verify_crc8 [0x48, 0x41] (calculate_crc8 [0x48, 0x49]) = 0"
proof -
  have h1: "(1::nat) < length [0x48, 0x49 :: uint8]" and h2: "(3::nat) < 8" by simp_all
  have e: "[0x48, 0x49 :: uint8][1 := [0x48, 0x49] ! 1 XOR push_bit 3 1] = [0x48, 0x41]"
    by simp
  from crc8_detects_single_bit_flip [OF h1 h2] have
    "calculate_crc8 [0x48, 0x41] \<noteq> calculate_crc8 [0x48, 0x49] \<and>
     verify_crc8 [0x48, 0x41] (calculate_crc8 [0x48, 0x49]) = 0"
    unfolding e .
  with h1 h2 e show ?thesis by (simp only: simp_thms)
qed

section \<open>Manchester coding: round trip and decode errors\<close>

lemma low_bit_test: "(drop_bit k (w::uint8) AND 1 \<noteq> 0) = bit w k"
  by (simp add: and_one_eq bit_iff_odd_drop_bit mod_2_eq_odd)

lemma bit_two_16: "bit (2::uint16) m = (m = 1)"
proof -
  have "(2::uint16) = push_bit 1 1" by simp
  then show ?thesis by (simp only: bit_push_bit_iff possible_bit_word bit_1_iff) auto
qed

lemma symbol_append_bit:
  "bit (if c then push_bit 2 (acc::uint16) OR 2 else push_bit 2 acc OR 1) m =
   (if m = 0 then \<not> c else if m = 1 then c else m < 16 \<and> bit acc (m - 2))"
proof -
  have a: "bit (push_bit 2 acc) m = (2 \<le> m \<and> m < 16 \<and> bit acc (m - 2))"
    by (simp only: bit_push_bit_iff possible_bit_word) simp
  show ?thesis
    by (simp only: bit_or_iff a bit_two_16 bit_1_iff if_distrib [of "\<lambda>w. bit w m"]) auto
qed

lemma manchester_encode_bits_bit:
  "bit (manchester_encode_bits i b acc) n =
   (n < 16 \<and> (if n < 2 * nat (i + 1) then (if even n then \<not> bit b (n div 2) else bit b (n div 2))
              else bit acc (n - 2 * nat (i + 1))))"
proof (induction i b acc arbitrary: n rule: manchester_encode_bits.induct)
  case (1 i b acc)
  show ?case
  proof (cases "i \<ge> 0")
    case False
    then show ?thesis
      by (subst manchester_encode_bits.simps) (auto dest: bit_imp_le_length)
  next
    case True
    define acc' where "acc' = (if bit b (nat i) then push_bit 2 acc OR 2 else push_bit 2 acc OR 1)"
    have step: "manchester_encode_bits i b acc = manchester_encode_bits (i - 1) b acc'"
      by (subst manchester_encode_bits.simps) (simp add: True acc'_def low_bit_test)
    from True have k: "nat (i + 1) = Suc (nat i)" "nat (i - 1 + 1) = nat i" by simp_all
    have ih: "bit (manchester_encode_bits (i - 1) b acc') n =
       (n < 16 \<and> (if n < 2 * nat i then (if even n then \<not> bit b (n div 2) else bit b (n div 2))
              else bit acc' (n - 2 * nat i)))"
      using "1.IH" [OF True, of n] unfolding low_bit_test k acc'_def .
    have a: "bit acc' m = (if m = 0 then \<not> bit b (nat i) else if m = 1 then bit b (nat i)
                           else m < 16 \<and> bit acc (m - 2))" for m
      unfolding acc'_def by (rule symbol_append_bit)
    have "n < 2 * nat i \<or> n = 2 * nat i \<or> n = 2 * nat i + 1 \<or> 2 * nat i + 2 \<le> n" by arith
    then show ?thesis
      unfolding step ih k a
      by (elim disjE) (auto simp: not_less)
  qed
qed

lemma manchester_code_bit:
  "n < 16 \<Longrightarrow>
   bit (manchester_encode_bits 7 b 0) n = (if even n then \<not> bit b (n div 2) else bit b (n div 2))"
  by (simp add: manchester_encode_bits_bit)

lemma bit_two_int: "bit (2::int) n = (n = 1)"
proof -
  have "(2::int) = push_bit 1 1" by simp
  then show ?thesis by (simp only: bit_push_bit_iff bit_1_iff) auto
qed

lemma bit_three_int: "bit (3::int) n = (n < 2)"
proof -
  have "(3::int) = mask 2" by (simp add: mask_eq_exp_minus_1)
  then show ?thesis by (simp only: bit_mask_iff) auto
qed

lemma two_bits_of_word:
  "m \<le> 14 \<Longrightarrow>
   (ucast (drop_bit m (w::uint16) AND 3) :: uint8) =
   (if bit w (Suc m) then 2 else 0) OR (if bit w m then 1 else 0)"
proof (rule bit_word_eqI)
  fix n assume "m \<le> 14" "n < LENGTH(8)"
  have "n = 0 \<or> n = 1 \<or> 2 \<le> n" by arith
  then show "bit (ucast (drop_bit m w AND 3) :: uint8) n =
        bit ((if bit w (Suc m) then 2 else 0) OR (if bit w m then 1 else 0) :: uint8) n"
    using \<open>n < LENGTH(8)\<close> \<open>m \<le> 14\<close>
    by (elim disjE)
       (auto simp: bit_ucast_iff bit_and_iff bit_drop_bit_eq bit_or_iff bit_1_iff
          possible_bit_word bit_two_int bit_three_int)
qed

lemma manchester_symbol_bits:
  assumes "0 \<le> j" and "j < 8"
  shows "manchester_symbol enc j =
         (if bit enc (Suc (nat (14 - j * 2))) then 2 else 0) OR
         (if bit enc (nat (14 - j * 2)) then 1 else 0)"
  unfolding manchester_symbol_def using assms by (intro two_bits_of_word) simp

lemma manchester_symbol_of_code:
  assumes "0 \<le> j" and "j < 8"
  shows "manchester_symbol (manchester_encode_bits 7 b 0) j = (if bit b (nat (7 - j)) then 2 else 1)"
proof -
  define m where "m = nat (14 - j * 2)"
  from assms have m: "m < 16" "Suc m < 16" "even m" "m div 2 = nat (7 - j)" "Suc m div 2 = nat (7 - j)"
    by (auto simp: m_def nat_diff_distrib nat_mult_distrib even_nat_iff)
  show ?thesis
    unfolding manchester_symbol_bits [OF assms] m_def [symmetric]
    using m by (simp add: manchester_code_bit)
qed

lemma manchester_decode_step:
  "j < 8 \<Longrightarrow> manchester_symbol enc j = (if c then 2 else 1) \<Longrightarrow>
   manchester_decode_symbols j enc d =
   manchester_decode_symbols (j + 1) enc (push_bit 1 d OR (if c then 1 else 0))"
  by (subst manchester_decode_symbols.simps) (cases c; simp)

lemma drop_bit_step:
  "push_bit 1 (drop_bit (Suc k) (w::uint8)) OR (if bit w k then 1 else 0) = drop_bit k w"
proof (rule bit_word_eqI)
  fix n assume n: "n < LENGTH(8)"
  have a: "bit (push_bit 1 (drop_bit (Suc k) w)) n = (1 \<le> n \<and> n < 8 \<and> bit w (Suc k + (n - 1)))"
    by (simp only: bit_push_bit_iff possible_bit_word bit_drop_bit_eq) simp
  have b: "bit (if bit w k then 1 else 0 :: uint8) n = (n = 0 \<and> bit w k)"
    by (simp add: bit_1_iff)
  have c: "bit (drop_bit k w) n = bit w (k + n)"
    by (simp only: bit_drop_bit_eq) simp
  show "bit (push_bit 1 (drop_bit (Suc k) w) OR (if bit w k then 1 else 0)) n =
        bit (drop_bit k w) n"
    unfolding bit_or_iff a b c using n by (cases n) auto
qed

lemma manchester_decode_from:
  "n \<le> 8 \<Longrightarrow>
   manchester_decode_symbols (8 - int n) (manchester_encode_bits 7 b 0) (drop_bit n b) = Some b"
proof (induction n)
  case 0
  show ?case by (subst manchester_decode_symbols.simps) simp
next
  case (Suc n)
  let ?E = "manchester_encode_bits 7 b 0"
  let ?j = "8 - int (Suc n)"
  from Suc.prems have j: "0 \<le> ?j" "?j < 8" by simp_all
  have c: "nat (7 - ?j) = n" by simp
  have "manchester_decode_symbols ?j ?E (drop_bit (Suc n) b) =
        manchester_decode_symbols (?j + 1) ?E
          (push_bit 1 (drop_bit (Suc n) b) OR (if bit b n then 1 else 0))"
    using manchester_symbol_of_code [OF j, of b] unfolding c
    by (intro manchester_decode_step j)
  also have "\<dots> = manchester_decode_symbols (8 - int n) ?E (drop_bit n b)"
    by (simp only: drop_bit_step) simp
  also have "\<dots> = Some b"
    using Suc.prems by (intro Suc.IH) simp
  finally show ?case .
qed

lemma manchester_decode_code:
  "manchester_decode_symbols 0 (manchester_encode_bits 7 b 0) 0 = Some b"
  using manchester_decode_from [of 8 b] by simp

lemma join_split_word:
  "push_bit 8 (ucast (ucast (drop_bit 8 (w::uint16) AND 0xFF) :: uint8)) OR
   ucast (ucast (w AND 0xFF) :: uint8) = w"
proof -
  have m: "(0xFF::uint16) = mask 8" by (simp add: mask_eq_exp_minus_1)
  show ?thesis
    unfolding m
    by (rule bit_word_eqI)
       (auto simp: bit_or_iff bit_push_bit_iff bit_ucast_iff bit_and_iff bit_drop_bit_eq
          bit_mask_iff possible_bit_word)
qed

lemma manchester_decode_pairs_encode:
  "manchester_decode_pairs (manchester_encode x) out = (0, out @ x)"
  by (induction x arbitrary: out)
     (simp_all add: Let_def join_split_word manchester_decode_code)

lemma length_manchester_encode: "length (manchester_encode x) = 2 * length x"
  by (induction x) (simp_all add: Let_def)

lemma manchester_roundtrip: "manchester_decode (manchester_encode x) = (0, x)"
  by (simp add: manchester_decode_def length_manchester_encode manchester_decode_pairs_encode)

lemma manchester_decode_symbols_bad:
  "j \<le> k \<Longrightarrow> k < 8 \<Longrightarrow> manchester_symbol enc k \<noteq> 2 \<Longrightarrow> manchester_symbol enc k \<noteq> 1 \<Longrightarrow>
   manchester_decode_symbols j enc d = None"
proof (induction j enc d rule: manchester_decode_symbols.induct)
  case (1 j enc d)
  from "1.prems" have j: "j < 8" by simp
  show ?case
  proof (cases "j = k")
    case True
    with "1.prems" j show ?thesis
      by (subst manchester_decode_symbols.simps) simp
  next
    case False
    with "1.prems" have jk: "j + 1 \<le> k" by simp
    show ?thesis
    proof (cases "manchester_symbol enc j = 2")
      case True
      from "1.IH"(1) [OF j refl True jk "1.prems"(2,3,4)] True j show ?thesis
        by (subst manchester_decode_symbols.simps) simp
    next
      case n2: False
      show ?thesis
      proof (cases "manchester_symbol enc j = 1")
        case True
        from "1.IH"(2) [OF j refl n2 True jk "1.prems"(2,3,4)] True n2 j show ?thesis
          by (subst manchester_decode_symbols.simps) simp
      next
        case False
        with n2 j show ?thesis
          by (subst manchester_decode_symbols.simps) simp
      qed
    qed
  qed
qed

lemma manchester_decode_pairs_bad:
  "2 * i + 1 < length input \<Longrightarrow>
   manchester_decode_symbols 0
     (push_bit 8 (ucast (input ! (2 * i))) OR ucast (input ! (2 * i + 1))) 0 = None \<Longrightarrow>
   fst (manchester_decode_pairs input out) = - 1"
proof (induction input out arbitrary: i rule: manchester_decode_pairs.induct)
  case (1 hi lo rest out)
  show ?case
  proof (cases i)
    case 0
    with "1.prems" show ?thesis by (simp add: Let_def)
  next
    case (Suc i')
    show ?thesis
    proof (cases "manchester_decode_symbols 0 (push_bit 8 (ucast hi) OR ucast lo) 0")
      case None
      then show ?thesis by (simp add: Let_def)
    next
      case (Some decoded)
      from "1.prems" Suc have "2 * i' + 1 < length rest"
        and "manchester_decode_symbols 0
              (push_bit 8 (ucast (rest ! (2 * i'))) OR ucast (rest ! (2 * i' + 1))) 0 = None"
        by simp_all
      from "1.IH" [OF refl Some this] Some show ?thesis by (simp add: Let_def)
    qed
  qed
qed simp_all

lemma pair_word_bit:
  "bit (push_bit 8 (ucast (hi::uint8)) OR ucast (lo::uint8) :: uint16) n =
   (if n < 8 then bit lo n else n < 16 \<and> bit hi (n - 8))"
  by (auto simp: bit_or_iff bit_push_bit_iff bit_ucast_iff possible_bit_word
      dest: bit_imp_le_length)

lemma symbol_of_equal_bits:
  assumes "0 \<le> k" and "k < 8"
    and "bit enc (Suc (nat (14 - k * 2))) = bit enc (nat (14 - k * 2))"
  shows "manchester_symbol enc k \<noteq> 2 \<and> manchester_symbol enc k \<noteq> 1"
  unfolding manchester_symbol_bits [OF assms(1,2)] using assms(3)
  by (cases "bit enc (nat (14 - k * 2))") simp_all

lemma manchester_decode_bad_symbol:
  assumes "even (length input)" and "m < length input" and "t < 4"
    and "bit (input ! m) (2 * t + 1) = bit (input ! m) (2 * t)"
  shows "fst (manchester_decode input) = - 1"
proof -
  define i where "i = m div 2"
  from assms(1) obtain b where b: "length input = 2 * b" by (elim evenE)
  with assms(2) have "m div 2 < b" by simp
  with b have i: "2 * i + 1 < length input"
    unfolding i_def by simp
  define enc :: uint16 where
    "enc = push_bit 8 (ucast (input ! (2 * i))) OR ucast (input ! (2 * i + 1))"
  define k :: int where "k = (if even m then 3 - int t else 7 - int t)"
  from assms(3) have k: "0 \<le> k" "k < 8" by (auto simp: k_def)
  have "bit enc (Suc (nat (14 - k * 2))) = bit enc (nat (14 - k * 2))"
  proof (cases "even m")
    case True
    then have m: "2 * i = m" by (auto simp: i_def)
    from True assms(3) have "nat (14 - k * 2) = 8 + 2 * t" by (simp add: k_def)
    with assms(3,4) show ?thesis
      by (simp add: enc_def pair_word_bit m)
  next
    case False
    then have m: "2 * i + 1 = m" "Suc (2 * i) = m" by (auto simp: i_def elim!: oddE)
    from False assms(3) have "nat (14 - k * 2) = 2 * t" by (simp add: k_def)
    with assms(3,4) show ?thesis
      by (simp add: enc_def pair_word_bit m)
  qed
  from symbol_of_equal_bits [OF k this]
  have "manchester_decode_symbols 0 enc 0 = None"
    using k by (intro manchester_decode_symbols_bad [of 0 k]) simp_all
  with i have "fst (manchester_decode_pairs input []) = - 1"
    unfolding enc_def by (intro manchester_decode_pairs_bad [of i])
  with assms(1) show ?thesis by (simp add: manchester_decode_def)
qed

text \<open>
  C8. For every byte sequence \<open>x\<close>, decoding the Manchester encoding of \<open>x\<close>
  succeeds with \<open>x\<close>, and the encoding is exactly twice as long as \<open>x\<close>. Decoding
  fails with the error return -1 for every input of odd length and for every input in
  which some 2-bit symbol (bits \<open>2t+1\<close> and \<open>2t\<close> of some byte \<open>m\<close>) is neither 01 nor
  10, that is, has two equal bits.
\<close>

theorem manchester_roundtrip_and_errors:
  "manchester_decode (manchester_encode x) = (0, x) \<and>
   length (manchester_encode x) = 2 * length x \<and>
   (odd (length input) \<or>
    (m < length input \<and> t < 4 \<and> bit (input ! m) (2 * t + 1) = bit (input ! m) (2 * t))
    \<longrightarrow> fst (manchester_decode input) = - 1)"
proof -
  have "fst (manchester_decode input) = - 1" if "odd (length input)"
    using that by (simp add: manchester_decode_def odd_iff_mod_2_eq_one)
  moreover have "fst (manchester_decode input) = - 1"
    if "m < length input" "t < 4" "bit (input ! m) (2 * t + 1) = bit (input ! m) (2 * t)"
      "even (length input)"
    using that manchester_decode_bad_symbol by blast
  ultimately show ?thesis
    using manchester_roundtrip length_manchester_encode by blast
qed

theorem manchester_roundtrip_and_errors_witness:
  "manchester_encode [0xAA, 0x55] = [0x99, 0x99, 0x66, 0x66] \<and>
   manchester_decode (manchester_encode [0xAA, 0x55]) = (0, [0xAA, 0x55]) \<and>
   length (manchester_encode [0xAA, 0x55]) = 2 * length [0xAA, 0x55 :: uint8] \<and>
   odd (length [0x99 :: uint8]) \<and> fst (manchester_decode [0x99]) = - 1 \<and>
   (1::nat) < length [0x99, 0x98 :: uint8] \<and> (0::nat) < 4 \<and>
   bit ([0x99, 0x98 :: uint8] ! 1) (2 * 0 + 1) = bit ([0x99, 0x98 :: uint8] ! 1) (2 * 0) \<and>
   fst (manchester_decode [0x99, 0x98]) = - 1"
proof -
  have e: "manchester_encode [0xAA, 0x55] = [0x99, 0x99, 0x66, 0x66]"
    by code_simp
  have o: "odd (length [0x99 :: uint8])" by simp
  have b: "(1::nat) < length [0x99, 0x98 :: uint8] \<and> (0::nat) < 4 \<and>
     bit ([0x99, 0x98 :: uint8] ! 1) (2 * 0 + 1) = bit ([0x99, 0x98 :: uint8] ! 1) (2 * 0)"
    by simp
  from manchester_roundtrip_and_errors [of "[0xAA, 0x55]" "[0x99]"] o have
    r: "manchester_decode (manchester_encode [0xAA, 0x55]) = (0, [0xAA, 0x55])"
       "length (manchester_encode [0xAA, 0x55]) = 2 * length [0xAA, 0x55 :: uint8]"
       "fst (manchester_decode [0x99]) = - 1"
    by blast+
  from manchester_roundtrip_and_errors [of "[]" "[0x99, 0x98]" 1 0] b have
    s: "fst (manchester_decode [0x99, 0x98]) = - 1"
    by blast
  from e o b r s show ?thesis by blast
qed

end
